theory Spec2Isabelle
  imports Main "HOL-Library.Multiset"
begin

section \<open>Range search: the data model\<close>

text \<open>
  The development follows \<^verbatim>\<open>range_search_impl.hpp\<close>: the two constructors, the
  destructor and the three \<^verbatim>\<open>Search\<close> overloads of \<^verbatim>\<open>RangeSearch\<close>.
  Points are an abstract type \<open>'p\<close> (one column of the matrix), a matrix is the list of
  its columns, and a distance is a value of a linear order \<open>'d\<close> (the \<^verbatim>\<open>double\<close> of
  the source without its NaN).  The template parameters \<^verbatim>\<open>MetricType\<close> and
  \<^verbatim>\<open>TreeType\<close> are parameters of the model.
\<close>

subsection \<open>Trees\<close>

text \<open>
  Modelled from the spec: the tree class is not part of the sources.  A node holds a
  bounding region, a contiguous range of the tree's dataset (first index and count)
  and zero or two children.
\<close>

datatype 'b node =
    LeafNode 'b nat nat
  | InnerNode 'b nat nat "'b node" "'b node"

fun Bound :: "'b node \<Rightarrow> 'b" where
  "Bound (LeafNode b s c) = b"
| "Bound (InnerNode b s c l r) = b"

fun Begin :: "'b node \<Rightarrow> nat" where
  "Begin (LeafNode b s c) = s"
| "Begin (InnerNode b s c l r) = s"

fun Count :: "'b node \<Rightarrow> nat" where
  "Count (LeafNode b s c) = c"
| "Count (InnerNode b s c l r) = c"

text \<open>A tree object: its own (possibly reordered) dataset and its root node.\<close>

record ('p, 'b) Tree =
  Dataset :: "'p list"
  Root :: "'b node"

text \<open>
  Modelled from the spec: the capabilities of the template parameter \<^verbatim>\<open>TreeType\<close>
  (section 6 of the spec).  \<open>RearrangesDataset\<close> is the static trait
  \<^verbatim>\<open>TreeTraits<TreeType>::RearrangesDataset\<close>; \<open>NewMapped\<close> is the constructor
  \<^verbatim>\<open>TreeType(dataset, oldFromNew)\<close>, which returns the tree and the permutation
  record it writes into its second argument; \<open>NewPlain\<close> is \<^verbatim>\<open>TreeType(dataset)\<close>;
  the four distance functions are the minimum and maximum distance between a point
  and a bounding region, and between two bounding regions.
\<close>

record ('p, 'b, 'd) TreeType =
  RearrangesDataset :: bool
  NewMapped :: "'p list \<Rightarrow> ('p, 'b) Tree \<times> nat list"
  NewPlain :: "'p list \<Rightarrow> ('p, 'b) Tree"
  MinDistance :: "'p \<Rightarrow> 'b \<Rightarrow> 'd"
  MaxDistance :: "'p \<Rightarrow> 'b \<Rightarrow> 'd"
  MinDistanceNode :: "'b \<Rightarrow> 'b \<Rightarrow> 'd"
  MaxDistanceNode :: "'b \<Rightarrow> 'b \<Rightarrow> 'd"

text \<open>
  The two overloads of \<^verbatim>\<open>BuildTree\<close> (lines 19 to 40), selected by the trait.  The
  second argument is the caller's \<^verbatim>\<open>oldFromNew\<close> vector; the result is the new tree
  and the vector afterwards: the overload for a tree type that does not rearrange
  leaves it as it was.
\<close>

definition BuildTree ::
  "('p, 'b, 'd) TreeType \<Rightarrow> 'p list \<Rightarrow> nat list \<Rightarrow> ('p, 'b) Tree \<times> nat list" where
  "BuildTree K dataset oldFromNew =
     (if RearrangesDataset K then NewMapped K dataset
      else (NewPlain K dataset, oldFromNew))"

subsection \<open>The heap of trees\<close>

text \<open>
  A \<^verbatim>\<open>Tree*\<close> is an optional address (\<open>None\<close> is \<^verbatim>\<open>NULL\<close>); the heap is the list
  of allocated tree objects, an entry being \<open>None\<close> once the object was deleted.
  \<^verbatim>\<open>new\<close> takes the next address.
\<close>

type_synonym addr = nat

type_synonym ('p, 'b) heap = "('p, 'b) Tree option list"

definition new_tree :: "('p, 'b) heap \<Rightarrow> ('p, 'b) Tree \<Rightarrow> addr \<times> ('p, 'b) heap" where
  "new_tree h t = (length h, h @ [Some t])"

definition delete_tree :: "('p, 'b) heap \<Rightarrow> addr \<Rightarrow> ('p, 'b) heap" where
  "delete_tree h a = h[a := None]"

definition deref :: "('p, 'b) heap \<Rightarrow> addr option \<Rightarrow> ('p, 'b) Tree option" where
  "deref h p =
     (case p of
        None \<Rightarrow> None
      | Some a \<Rightarrow> if a < length h then h ! a else None)"

definition live :: "('p, 'b) heap \<Rightarrow> addr \<Rightarrow> bool" where
  "live h a = (deref h (Some a) \<noteq> None)"

subsection \<open>The members of RangeSearch\<close>

record ('p, 'd) RangeSearch =
  oldFromNewReferences :: "nat list"
  referenceTree :: "addr option"
  referenceSet :: "'p list"
  treeOwner :: bool
  naive :: bool
  singleMode :: bool
  metric :: "'p \<Rightarrow> 'p \<Rightarrow> 'd"

text \<open>
  What a call can end with besides returning: the \<^verbatim>\<open>std::invalid_argument\<close> of
  line 268, the use of a tree pointer that is null or dangling, and a \<^verbatim>\<open>delete\<close> of
  an object that was not allocated with \<^verbatim>\<open>new\<close> (the last two are undefined
  behaviour in C++; the model stops there and reports them).
\<close>

datatype error = InvalidArgument | NullPointer | InvalidDelete

section \<open>Constructors and destructor\<close>

text \<open>
  Lines 47 to 61: the constructor from a reference set.  The members are initialised
  in the order written there; \<open>oldFromNewReferences\<close> starts empty and is the
  vector handed to \<^verbatim>\<open>BuildTree\<close>.  The result is the new object and the heap.
\<close>

definition RangeSearch_set ::
  "('p, 'b, 'd) TreeType \<Rightarrow> ('p, 'b) heap \<Rightarrow> 'p list \<Rightarrow> bool \<Rightarrow> bool \<Rightarrow> ('p \<Rightarrow> 'p \<Rightarrow> 'd)
     \<Rightarrow> ('p, 'd) RangeSearch \<times> ('p, 'b) heap" where
  "RangeSearch_set K h referenceSetIn naiveIn singleModeIn metricIn =
     (if naiveIn then
        (\<lparr>oldFromNewReferences = [], referenceTree = None,
          referenceSet = referenceSetIn,
          treeOwner = (\<not> naiveIn), naive = naiveIn,
          singleMode = (\<not> naiveIn \<and> singleModeIn), metric = metricIn\<rparr>, h)
      else
        (case BuildTree K referenceSetIn [] of
           (t, ofn) \<Rightarrow>
             (case new_tree h t of
                (a, h') \<Rightarrow>
                  (\<lparr>oldFromNewReferences = ofn, referenceTree = Some a,
                    referenceSet = Dataset t,
                    treeOwner = (\<not> naiveIn), naive = naiveIn,
                    singleMode = (\<not> naiveIn \<and> singleModeIn), metric = metricIn\<rparr>, h'))))"

text \<open>
  Lines 68 to 80: the constructor from a tree built by the caller.  It reads
  \<^verbatim>\<open>referenceTree->Dataset()\<close>, so the pointer has to refer to a live tree.
\<close>

definition RangeSearch_tree ::
  "('p, 'b) heap \<Rightarrow> addr option \<Rightarrow> bool \<Rightarrow> ('p \<Rightarrow> 'p \<Rightarrow> 'd) \<Rightarrow> error + ('p, 'd) RangeSearch" where
  "RangeSearch_tree h referenceTreeIn singleModeIn metricIn =
     (case deref h referenceTreeIn of
        None \<Rightarrow> Inl NullPointer
      | Some t \<Rightarrow>
          Inr \<lparr>oldFromNewReferences = [], referenceTree = referenceTreeIn,
               referenceSet = Dataset t,
               treeOwner = False, naive = False,
               singleMode = singleModeIn, metric = metricIn\<rparr>)"

text \<open>Lines 87 to 91: the destructor, as its effect on the heap.\<close>

definition destroy :: "('p, 'b) heap \<Rightarrow> ('p, 'd) RangeSearch \<Rightarrow> ('p, 'b) heap" where
  "destroy h rs =
     (if treeOwner rs \<and> referenceTree rs \<noteq> None
      then delete_tree h (the (referenceTree rs))
      else h)"

section \<open>The rules and the traversals\<close>

text \<open>
  Modelled from the spec: \<^verbatim>\<open>math::Range\<close> is not part of the sources.  A range is the
  closed interval from \<open>Lo\<close> to \<open>Hi\<close>, both ends included.
\<close>

record 'd Range =
  Lo :: 'd
  Hi :: 'd

definition Contains :: "('d::linorder) Range \<Rightarrow> 'd \<Rightarrow> bool" where
  "Contains r d = (Lo r \<le> d \<and> d \<le> Hi r)"

text \<open>
  Modelled from the spec: \<^verbatim>\<open>RangeSearchRules\<close> (\<^verbatim>\<open>range_search_rules.hpp\<close>) is not
  part of the sources.  A rule object holds the reference set, the query set, the
  range, the metric and the self-exclusion flag; the two output buffers it writes
  to are passed through as a pair.
\<close>

record ('p, 'd) Rules =
  rReferenceSet :: "'p list"
  rQuerySet :: "'p list"
  rRange :: "'d Range"
  rMetric :: "'p \<Rightarrow> 'p \<Rightarrow> 'd"
  rSameSet :: bool

type_synonym 'd results = "nat list list \<times> 'd list list"

text \<open>
  Modelled from the spec (section 4.2, base case): compute the distance; skip when
  self-exclusion is active and both indices are the same; otherwise append the
  reference index and the distance to the entry of the query when the distance is
  in the range.
\<close>

definition BaseCase ::
  "('p, 'd::linorder) Rules \<Rightarrow> nat \<Rightarrow> nat \<Rightarrow> 'd results \<Rightarrow> 'd results" where
  "BaseCase R i j res =
     (let d = rMetric R (rQuerySet R ! i) (rReferenceSet R ! j) in
      if rSameSet R \<and> i = j then res
      else if Contains (rRange R) d then
        (case res of (nb, ds) \<Rightarrow> (nb[i := nb ! i @ [j]], ds[i := ds ! i @ [d]]))
      else res)"

text \<open>
  Modelled from the spec (section 4.2, node pruning): a node is pruned when its
  distance range lies entirely outside the search range, that is when the maximum
  distance is below \<open>Lo\<close> or the minimum distance is above \<open>Hi\<close>.
\<close>

definition PrunePoint ::
  "('p, 'b, 'd::linorder) TreeType \<Rightarrow> ('p, 'd) Rules \<Rightarrow> nat \<Rightarrow> 'b \<Rightarrow> bool" where
  "PrunePoint K R i b =
     (MaxDistance K (rQuerySet R ! i) b < Lo (rRange R) \<or>
      Hi (rRange R) < MinDistance K (rQuerySet R ! i) b)"

definition PruneNode ::
  "('p, 'b, 'd::linorder) TreeType \<Rightarrow> ('p, 'd) Rules \<Rightarrow> 'b \<Rightarrow> 'b \<Rightarrow> bool" where
  "PruneNode K R qb rb =
     (MaxDistanceNode K qb rb < Lo (rRange R) \<or>
      Hi (rRange R) < MinDistanceNode K qb rb)"

text \<open>The brute-force double loop of lines 145 to 147 and 351 to 353.\<close>

definition NaiveLoop ::
  "('p, 'd::linorder) Rules \<Rightarrow> nat \<Rightarrow> nat \<Rightarrow> 'd results \<Rightarrow> 'd results" where
  "NaiveLoop R n m = fold (\<lambda>i. fold (BaseCase R i) [0..<m]) [0..<n]"

text \<open>
  Modelled from the spec: the single-tree traverser.  For one query point it walks
  the reference tree from the root; a pruned node is left out with its subtree, the
  points of a leaf are visited as base cases, and the children of an inner node are
  visited in turn.
\<close>

fun SingleTraverse ::
  "('p, 'b, 'd::linorder) TreeType \<Rightarrow> ('p, 'd) Rules \<Rightarrow> nat \<Rightarrow> 'b node \<Rightarrow> 'd results \<Rightarrow> 'd results"
  where
  "SingleTraverse K R i (LeafNode b s c) res =
     (if PrunePoint K R i b then res
      else fold (BaseCase R i) [s..<s + c] res)"
| "SingleTraverse K R i (InnerNode b s c l r) res =
     (if PrunePoint K R i b then res
      else SingleTraverse K R i r (SingleTraverse K R i l res))"

text \<open>The loop over the query points of lines 157 and 158 and 361 and 362.\<close>

definition SingleLoop ::
  "('p, 'b, 'd::linorder) TreeType \<Rightarrow> ('p, 'd) Rules \<Rightarrow> nat \<Rightarrow> 'b node \<Rightarrow> 'd results \<Rightarrow> 'd results"
  where
  "SingleLoop K R n root = fold (\<lambda>i. SingleTraverse K R i root) [0..<n]"

text \<open>
  Modelled from the spec: the dual-tree traverser.  It walks pairs of a query node
  and a reference node from both roots; a pruned pair is left out, a pair of leaves
  is evaluated point by point, and otherwise it recurses into the children of the
  nodes that have children.
\<close>

fun DualTraverse ::
  "('p, 'b, 'd::linorder) TreeType \<Rightarrow> ('p, 'd) Rules \<Rightarrow> 'b node \<Rightarrow> 'b node \<Rightarrow> 'd results \<Rightarrow> 'd results"
  where
  "DualTraverse K R (LeafNode qb qs qc) (LeafNode rb rs rc) res =
     (if PruneNode K R qb rb then res
      else fold (\<lambda>i. fold (BaseCase R i) [rs..<rs + rc]) [qs..<qs + qc] res)"
| "DualTraverse K R (LeafNode qb qs qc) (InnerNode rb rs rc rl rr) res =
     (if PruneNode K R qb rb then res
      else DualTraverse K R (LeafNode qb qs qc) rr
             (DualTraverse K R (LeafNode qb qs qc) rl res))"
| "DualTraverse K R (InnerNode qb qs qc ql qr) (LeafNode rb rs rc) res =
     (if PruneNode K R qb rb then res
      else DualTraverse K R qr (LeafNode rb rs rc)
             (DualTraverse K R ql (LeafNode rb rs rc) res))"
| "DualTraverse K R (InnerNode qb qs qc ql qr) (InnerNode rb rs rc rl rr) res =
     (if PruneNode K R qb rb then res
      else DualTraverse K R qr rr
             (DualTraverse K R qr rl
               (DualTraverse K R ql rr
                 (DualTraverse K R ql rl res))))"

section \<open>Search\<close>

subsection \<open>The output buffers and the pointers to them\<close>

text \<open>
  \<^verbatim>\<open>neighborPtr\<close> and \<^verbatim>\<open>distancePtr\<close> point either to the caller's buffer or to a
  temporary allocated with \<^verbatim>\<open>new\<close>.  The store holds the four vectors, and every
  access the source makes through a pointer is an access through \<open>getN\<close>, \<open>getD\<close>,
  \<open>putN\<close> or \<open>putD\<close>, so that an access to \<^verbatim>\<open>*neighborPtr\<close> sees what was written to
  \<^verbatim>\<open>neighbors\<close> when the two are the same object.
\<close>

datatype target = Caller | Temp

record 'd store =
  neighbors :: "nat list list"
  distances :: "'d list list"
  tmpNeighbors :: "nat list list"
  tmpDistances :: "'d list list"

definition getN :: "target \<Rightarrow> 'd store \<Rightarrow> nat list list" where
  "getN p s = (case p of Caller \<Rightarrow> neighbors s | Temp \<Rightarrow> tmpNeighbors s)"

definition getD :: "target \<Rightarrow> 'd store \<Rightarrow> 'd list list" where
  "getD p s = (case p of Caller \<Rightarrow> distances s | Temp \<Rightarrow> tmpDistances s)"

definition putN :: "target \<Rightarrow> nat list list \<Rightarrow> 'd store \<Rightarrow> 'd store" where
  "putN p v s = (case p of Caller \<Rightarrow> s\<lparr>neighbors := v\<rparr> | Temp \<Rightarrow> s\<lparr>tmpNeighbors := v\<rparr>)"

definition putD :: "target \<Rightarrow> 'd list list \<Rightarrow> 'd store \<Rightarrow> 'd store" where
  "putD p v s = (case p of Caller \<Rightarrow> s\<lparr>distances := v\<rparr> | Temp \<Rightarrow> s\<lparr>tmpDistances := v\<rparr>)"

text \<open>A traversal whose rule object was given \<^verbatim>\<open>*neighborPtr\<close> and \<^verbatim>\<open>*distancePtr\<close>.\<close>

definition through ::
  "target \<Rightarrow> target \<Rightarrow> ('d results \<Rightarrow> 'd results) \<Rightarrow> 'd store \<Rightarrow> 'd store" where
  "through np dp f s =
     (case f (getN np s, getD dp s) of (nb, ds) \<Rightarrow> putD dp ds (putN np nb s))"

text \<open>
  \<^verbatim>\<open>delete\<close> of the listed pointers: deleting a temporary frees it, deleting the
  caller's buffer is the error \<open>InvalidDelete\<close>.
\<close>

definition delete_all :: "target list \<Rightarrow> error option" where
  "delete_all ps = (if Caller \<in> set ps then Some InvalidDelete else None)"

subsection \<open>The three remapping loops\<close>

text \<open>
  One iteration of the loop of lines 194 to 205 (and of lines 382 to 394, where the
  query mapping is the reference mapping): copy the distances of internal query \<open>i\<close>
  to the original position, resize the neighbours there to the same length and fill
  them with the mapped reference indices.  Both loops run only where
  \<^verbatim>\<open>neighborPtr\<close> is a temporary (\<open>treeOwner\<close> and a rearranging tree type), so the
  inner loop over \<open>j\<close> reads a vector that the writes to \<^verbatim>\<open>neighbors\<close> leave alone,
  and is the \<open>map\<close> below.
\<close>

definition MapBoth ::
  "nat list \<Rightarrow> nat list \<Rightarrow> target \<Rightarrow> target \<Rightarrow> nat \<Rightarrow> 'd store \<Rightarrow> 'd store" where
  "MapBoth ofnQ ofnR np dp i s =
     (let queryMapping = ofnQ ! i;
          s' = s\<lparr>distances := (distances s)[queryMapping := getD dp s ! i]\<rparr>;
          len = length (distances s' ! queryMapping)
      in s'\<lparr>neighbors :=
              (neighbors s')[queryMapping := map (\<lambda>j. ofnR ! (getN np s' ! i ! j)) [0..<len]]\<rparr>)"

text \<open>
  One iteration of the loop of lines 219 to 225.  Here \<^verbatim>\<open>(*neighborPtr)[i]\<close> is read
  through the pointer after the write to \<^verbatim>\<open>distances\<close>, from the store as it is
  then.
\<close>

definition MapQueries :: "nat list \<Rightarrow> target \<Rightarrow> target \<Rightarrow> nat \<Rightarrow> 'd store \<Rightarrow> 'd store" where
  "MapQueries ofnQ np dp i s =
     (let queryMapping = ofnQ ! i;
          s' = s\<lparr>distances := (distances s)[queryMapping := getD dp s ! i]\<rparr>
      in s'\<lparr>neighbors := (neighbors s')[queryMapping := getN np s' ! i]\<rparr>)"

text \<open>
  One iteration of the loop of lines 237 to 242 (and of lines 302 to 307); these
  too run only where \<^verbatim>\<open>neighborPtr\<close> is a temporary.
\<close>

definition MapReferences :: "nat list \<Rightarrow> target \<Rightarrow> nat \<Rightarrow> 'd store \<Rightarrow> 'd store" where
  "MapReferences ofnR np i s =
     s\<lparr>neighbors :=
         (neighbors s)[i := map (\<lambda>j. ofnR ! (getN np s ! i ! j))
                              [0..<length (getN np s ! i)]]\<rparr>"

subsection \<open>Search with a query set (lines 98 to 248)\<close>

text \<open>
  The traversal of lines 139 to 179.  The result is the store afterwards and the
  vector \<^verbatim>\<open>oldFromNewQueries\<close>, which only the dual-tree branch fills.  The query
  tree of the dual-tree branch lives on the heap for the time of the call only, so
  the heap is the same before and after.
\<close>

definition Traverse_set ::
  "('p, 'b, 'd::linorder) TreeType \<Rightarrow> ('p, 'b) heap \<Rightarrow> ('p, 'd) RangeSearch \<Rightarrow> 'p list \<Rightarrow> 'd Range
     \<Rightarrow> target \<Rightarrow> target \<Rightarrow> 'd store \<Rightarrow> error + ('d store \<times> nat list)" where
  "Traverse_set K h rs querySet rng np dp s =
     (if naive rs then
        Inr (through np dp
               (NaiveLoop \<lparr>rReferenceSet = referenceSet rs, rQuerySet = querySet,
                           rRange = rng, rMetric = metric rs, rSameSet = False\<rparr>
                  (length querySet) (length (referenceSet rs))) s, [])
      else if singleMode rs then
        (case deref h (referenceTree rs) of
           None \<Rightarrow> Inl NullPointer
         | Some t \<Rightarrow>
             Inr (through np dp
                    (SingleLoop K \<lparr>rReferenceSet = referenceSet rs, rQuerySet = querySet,
                                   rRange = rng, rMetric = metric rs, rSameSet = False\<rparr>
                       (length querySet) (Root t)) s, []))
      else
        (case BuildTree K querySet [] of
           (queryTree, oldFromNewQueries) \<Rightarrow>
             (case deref h (referenceTree rs) of
                None \<Rightarrow> Inl NullPointer
              | Some t \<Rightarrow>
                  Inr (through np dp
                         (DualTraverse K
                            \<lparr>rReferenceSet = referenceSet rs, rQuerySet = Dataset queryTree,
                             rRange = rng, rMetric = metric rs, rSameSet = False\<rparr>
                            (Root queryTree) (Root t)) s, oldFromNewQueries))))"

text \<open>The remapping of lines 184 to 247, with the \<^verbatim>\<open>delete\<close>s that end each branch.\<close>

definition Remap_set ::
  "('p, 'b, 'd) TreeType \<Rightarrow> ('p, 'd) RangeSearch \<Rightarrow> nat \<Rightarrow> nat list \<Rightarrow> target \<Rightarrow> target
     \<Rightarrow> 'd store \<Rightarrow> error option \<times> 'd store" where
  "Remap_set K rs n ofnQ np dp s =
     (if RearrangesDataset K then
        if \<not> singleMode rs \<and> \<not> naive rs \<and> treeOwner rs then
          (let s1 = s\<lparr>neighbors := replicate n [], distances := replicate n []\<rparr>
           in (delete_all [np, dp],
               fold (MapBoth ofnQ (oldFromNewReferences rs) np dp)
                 [0..<length (distances s1)] s1))
        else if \<not> singleMode rs \<and> \<not> naive rs then
          (let s1 = s\<lparr>neighbors := replicate n [], distances := replicate n []\<rparr>
           in (delete_all [np, dp],
               fold (MapQueries ofnQ np dp) [0..<length (distances s1)] s1))
        else if treeOwner rs then
          (let s1 = s\<lparr>neighbors := replicate n []\<rparr>
           in (delete_all [np],
               fold (MapReferences (oldFromNewReferences rs) np)
                 [0..<length (neighbors s1)] s1))
        else (None, s)
      else (None, s))"

text \<open>
  The whole call.  \<open>nb0\<close> and \<open>ds0\<close> are the caller's buffers before the call; the
  result is how the call ends and the caller's buffers then.
\<close>

definition Search_set ::
  "('p, 'b, 'd::linorder) TreeType \<Rightarrow> ('p, 'b) heap \<Rightarrow> ('p, 'd) RangeSearch \<Rightarrow> 'p list \<Rightarrow> 'd Range
     \<Rightarrow> nat list list \<Rightarrow> 'd list list \<Rightarrow> error option \<times> nat list list \<times> 'd list list" where
  "Search_set K h rs querySet rng nb0 ds0 =
     (let n = length querySet;
          distancePtr =
            (if RearrangesDataset K \<and> \<not> singleMode rs \<and> \<not> naive rs then Temp else Caller);
          neighborPtr = (if RearrangesDataset K \<and> treeOwner rs then Temp else Caller);
          s0 = \<lparr>neighbors = nb0, distances = ds0, tmpNeighbors = [], tmpDistances = []\<rparr>;
          s1 = putD distancePtr (replicate n []) (putN neighborPtr (replicate n []) s0)
      in case Traverse_set K h rs querySet rng neighborPtr distancePtr s1 of
           Inl e \<Rightarrow> (Some e, neighbors s1, distances s1)
         | Inr (s2, oldFromNewQueries) \<Rightarrow>
             (case Remap_set K rs n oldFromNewQueries neighborPtr distancePtr s2 of
                (e, s3) \<Rightarrow> (e, neighbors s3, distances s3)))"

subsection \<open>Search with a query tree (lines 255 to 312)\<close>

definition Search_tree ::
  "('p, 'b, 'd::linorder) TreeType \<Rightarrow> ('p, 'b) heap \<Rightarrow> ('p, 'd) RangeSearch \<Rightarrow> addr option \<Rightarrow> 'd Range
     \<Rightarrow> nat list list \<Rightarrow> 'd list list \<Rightarrow> error option \<times> nat list list \<times> 'd list list" where
  "Search_tree K h rs queryTree rng nb0 ds0 =
     (case deref h queryTree of
        None \<Rightarrow> (Some NullPointer, nb0, ds0)
      | Some qt \<Rightarrow>
          if singleMode rs \<or> naive rs then (Some InvalidArgument, nb0, ds0)
          else
            (let n = length (Dataset qt);
                 neighborPtr = (if treeOwner rs \<and> RearrangesDataset K then Temp else Caller);
                 s0 = \<lparr>neighbors = nb0, distances = ds0, tmpNeighbors = [], tmpDistances = []\<rparr>;
                 s1 = (putN neighborPtr (replicate n []) s0)\<lparr>distances := replicate n []\<rparr>
             in case deref h (referenceTree rs) of
                  None \<Rightarrow> (Some NullPointer, neighbors s1, distances s1)
                | Some t \<Rightarrow>
                    (let s2 = through neighborPtr Caller
                                (DualTraverse K
                                   \<lparr>rReferenceSet = referenceSet rs, rQuerySet = Dataset qt,
                                    rRange = rng, rMetric = metric rs, rSameSet = False\<rparr>
                                   (Root qt) (Root t)) s1
                     in if treeOwner rs \<and> RearrangesDataset K then
                          (let s3 = s2\<lparr>neighbors := replicate n []\<rparr>;
                               s4 = fold (MapReferences (oldFromNewReferences rs) neighborPtr)
                                      [0..<length (neighbors s3)] s3
                           in (delete_all [neighborPtr], neighbors s4, distances s4))
                        else (None, neighbors s2, distances s2))))"

subsection \<open>Search without a query set (lines 319 to 400)\<close>

definition Traverse_self ::
  "('p, 'b, 'd::linorder) TreeType \<Rightarrow> ('p, 'b) heap \<Rightarrow> ('p, 'd) RangeSearch \<Rightarrow> 'd Range
     \<Rightarrow> target \<Rightarrow> target \<Rightarrow> 'd store \<Rightarrow> error + 'd store" where
  "Traverse_self K h rs rng np dp s =
     (let R = \<lparr>rReferenceSet = referenceSet rs, rQuerySet = referenceSet rs,
               rRange = rng, rMetric = metric rs, rSameSet = True\<rparr>;
          n = length (referenceSet rs)
      in if naive rs then Inr (through np dp (NaiveLoop R n n) s)
         else
           (case deref h (referenceTree rs) of
              None \<Rightarrow> Inl NullPointer
            | Some t \<Rightarrow>
                if singleMode rs then Inr (through np dp (SingleLoop K R n (Root t)) s)
                else Inr (through np dp (DualTraverse K R (Root t) (Root t)) s)))"

definition Search_self ::
  "('p, 'b, 'd::linorder) TreeType \<Rightarrow> ('p, 'b) heap \<Rightarrow> ('p, 'd) RangeSearch \<Rightarrow> 'd Range
     \<Rightarrow> nat list list \<Rightarrow> 'd list list \<Rightarrow> error option \<times> nat list list \<times> 'd list list" where
  "Search_self K h rs rng nb0 ds0 =
     (let n = length (referenceSet rs);
          p = (if RearrangesDataset K \<and> treeOwner rs then Temp else Caller);
          s0 = \<lparr>neighbors = nb0, distances = ds0, tmpNeighbors = [], tmpDistances = []\<rparr>;
          s1 = putD p (replicate n []) (putN p (replicate n []) s0)
      in case Traverse_self K h rs rng p p s1 of
           Inl e \<Rightarrow> (Some e, neighbors s1, distances s1)
         | Inr s2 \<Rightarrow>
             if treeOwner rs \<and> RearrangesDataset K then
               (let s3 = s2\<lparr>neighbors := replicate n [], distances := replicate n []\<rparr>;
                    s4 = fold (MapBoth (oldFromNewReferences rs) (oldFromNewReferences rs) p p)
                           [0..<length (distances s3)] s3
                in (delete_all [p, p], neighbors s4, distances s4))
             else (None, neighbors s2, distances s2))"

section \<open>A tree type on the integer line\<close>

text \<open>
  A small tree type used to run the definitions on concrete inputs: points are
  integers, the metric is the absolute difference, a bounding region is the pair
  of the smallest and the largest point of a node, and a tree has the root and, for
  two points or more, two leaves.  The rearranging constructor stores the points in
  reverse order.
\<close>

definition lineMetric :: "int \<Rightarrow> int \<Rightarrow> int" where
  "lineMetric x y = \<bar>x - y\<bar>"

definition spanOf :: "int list \<Rightarrow> int \<times> int" where
  "spanOf xs = (case xs of [] \<Rightarrow> (0, 0) | x # ys \<Rightarrow> (fold min ys x, fold max ys x))"

definition lineTree :: "int list \<Rightarrow> (int, int \<times> int) Tree" where
  "lineTree ds =
     (let n = length ds; k = n div 2 in
      \<lparr>Dataset = ds,
       Root = (if n < 2 then LeafNode (spanOf ds) 0 n
               else InnerNode (spanOf ds) 0 n
                      (LeafNode (spanOf (take k ds)) 0 k)
                      (LeafNode (spanOf (drop k ds)) k (n - k)))\<rparr>)"

definition lineKit :: "bool \<Rightarrow> (int, int \<times> int, int) TreeType" where
  "lineKit rearranges =
     \<lparr>RearrangesDataset = rearranges,
      NewMapped = (\<lambda>ds. (lineTree (rev ds), rev [0..<length ds])),
      NewPlain = lineTree,
      MinDistance = (\<lambda>q b. if q < fst b then fst b - q else if snd b < q then q - snd b else 0),
      MaxDistance = (\<lambda>q b. max \<bar>q - fst b\<bar> \<bar>q - snd b\<bar>),
      MinDistanceNode = (\<lambda>a b. if snd a < fst b then fst b - snd a
                                else if snd b < fst a then fst a - snd b else 0),
      MaxDistanceNode = (\<lambda>a b. max \<bar>snd b - fst a\<bar> \<bar>snd a - fst b\<bar>)\<rparr>"

section \<open>What a traversal calls, and what a tree type owes\<close>

subsection \<open>Base cases as a list of calls\<close>

text \<open>
  The distance the base case computes for internal query \<open>i\<close> and internal reference
  \<open>j\<close>, and whether the base case appends.
\<close>

definition dist :: "('p, 'd) Rules \<Rightarrow> nat \<Rightarrow> nat \<Rightarrow> 'd" where
  "dist R i j = rMetric R (rQuerySet R ! i) (rReferenceSet R ! j)"

definition hit :: "('p, 'd::linorder) Rules \<Rightarrow> nat \<Rightarrow> nat \<Rightarrow> bool" where
  "hit R i j = (\<not> (rSameSet R \<and> i = j) \<and> Contains (rRange R) (dist R i j))"

text \<open>
  A traversal is a sequence of base cases.  \<open>run_calls\<close> runs a list of calls
  (query index, reference index) in order; \<open>hits\<close> is what they append for query \<open>q\<close>.
\<close>

definition run_calls ::
  "('p, 'd::linorder) Rules \<Rightarrow> (nat \<times> nat) list \<Rightarrow> 'd results \<Rightarrow> 'd results" where
  "run_calls R cs = fold (\<lambda>c. BaseCase R (fst c) (snd c)) cs"

definition hits :: "('p, 'd::linorder) Rules \<Rightarrow> nat \<Rightarrow> (nat \<times> nat) list \<Rightarrow> nat list" where
  "hits R q cs = map snd (filter (\<lambda>c. fst c = q \<and> hit R q (snd c)) cs)"

definition resN :: "('p, 'd::linorder) Rules \<Rightarrow> (nat \<times> nat) list \<Rightarrow> nat \<Rightarrow> nat list list" where
  "resN R cs n = map (\<lambda>q. hits R q cs) [0..<n]"

definition resD :: "('p, 'd::linorder) Rules \<Rightarrow> (nat \<times> nat) list \<Rightarrow> nat \<Rightarrow> 'd list list" where
  "resD R cs n = map (\<lambda>q. map (dist R q) (hits R q cs)) [0..<n]"

text \<open>The points of a node, and the calls of the two tree traversals.\<close>

definition span :: "'b node \<Rightarrow> nat list" where
  "span nd = [Begin nd..<Begin nd + Count nd]"

fun single_calls ::
  "('p, 'b, 'd::linorder) TreeType \<Rightarrow> ('p, 'd) Rules \<Rightarrow> nat \<Rightarrow> 'b node \<Rightarrow> nat list" where
  "single_calls K R i (LeafNode b s c) = (if PrunePoint K R i b then [] else [s..<s + c])"
| "single_calls K R i (InnerNode b s c l r) =
     (if PrunePoint K R i b then [] else single_calls K R i l @ single_calls K R i r)"

fun dual_calls ::
  "('p, 'b, 'd::linorder) TreeType \<Rightarrow> ('p, 'd) Rules \<Rightarrow> 'b node \<Rightarrow> 'b node \<Rightarrow> (nat \<times> nat) list"
  where
  "dual_calls K R (LeafNode qb qs qc) (LeafNode rb rs rc) =
     (if PruneNode K R qb rb then [] else List.product [qs..<qs + qc] [rs..<rs + rc])"
| "dual_calls K R (LeafNode qb qs qc) (InnerNode rb rs rc rl rr) =
     (if PruneNode K R qb rb then []
      else dual_calls K R (LeafNode qb qs qc) rl @ dual_calls K R (LeafNode qb qs qc) rr)"
| "dual_calls K R (InnerNode qb qs qc ql qr) (LeafNode rb rs rc) =
     (if PruneNode K R qb rb then []
      else dual_calls K R ql (LeafNode rb rs rc) @ dual_calls K R qr (LeafNode rb rs rc))"
| "dual_calls K R (InnerNode qb qs qc ql qr) (InnerNode rb rs rc rl rr) =
     (if PruneNode K R qb rb then []
      else dual_calls K R ql rl @ dual_calls K R ql rr
           @ dual_calls K R qr rl @ dual_calls K R qr rr)"

text \<open>The loop of lines 194 to 205 as a function on one buffer.\<close>

definition scatter :: "nat list \<Rightarrow> (nat \<Rightarrow> 'a) \<Rightarrow> nat \<Rightarrow> 'a list \<Rightarrow> 'a list" where
  "scatter p f k xs = fold (\<lambda>i ys. ys[p ! i := f i]) [0..<k] xs"

subsection \<open>The contract of a tree type\<close>

text \<open>
  Modelled from the spec (sections 3 and 6): the points of an inner node are the
  points of its first child followed by those of its second child; the root of a
  tree over \<open>n\<close> points holds the points \<open>0\<close> to \<open>n - 1\<close>; the permutation record is
  a bijection on these indices, and internal point \<open>i\<close> of a rearranged dataset is
  point \<open>oldFromNew[i]\<close> of the dataset the tree was built from.
\<close>

fun wf_node :: "'b node \<Rightarrow> bool" where
  "wf_node (LeafNode b s c) = True"
| "wf_node (InnerNode b s c l r) =
     (wf_node l \<and> wf_node r \<and> Begin l = s \<and> Begin r = s + Count l \<and> Count l + Count r = c)"

definition tree_shape :: "'b node \<Rightarrow> nat \<Rightarrow> bool" where
  "tree_shape nd n = (wf_node nd \<and> Begin nd = 0 \<and> Count nd = n)"

definition perm_record :: "nat list \<Rightarrow> nat \<Rightarrow> bool" where
  "perm_record p n = (length p = n \<and> distinct p \<and> list_all (\<lambda>x. x < n) p)"

definition built_ok :: "('p, 'b, 'd) TreeType \<Rightarrow> 'p list \<Rightarrow> bool" where
  "built_ok K ds =
     (case BuildTree K ds [] of
        (t, p) \<Rightarrow>
          tree_shape (Root t) (length ds)
          \<and> (if RearrangesDataset K
             then perm_record p (length ds) \<and> Dataset t = map (\<lambda>i. ds ! (p ! i)) [0..<length ds]
             else Dataset t = ds))"

text \<open>
  Modelled from the spec (section 4.2, ``for all valid bounding computations''): the
  minimum and the maximum distance of a node bound the distance from the query
  point to every point of the node, at every node of the tree; and likewise for
  every pair of a query node and a reference node that the dual traversal can
  reach.
\<close>

definition point_ok ::
  "('p, 'b, 'd::linorder) TreeType \<Rightarrow> ('p \<Rightarrow> 'p \<Rightarrow> 'd) \<Rightarrow> 'p \<Rightarrow> 'p list \<Rightarrow> 'b \<Rightarrow> nat list \<Rightarrow> bool"
  where
  "point_ok K M q ds b js =
     list_all (\<lambda>j. MinDistance K q b \<le> M q (ds ! j) \<and> M q (ds ! j) \<le> MaxDistance K q b) js"

fun point_bounds ::
  "('p, 'b, 'd::linorder) TreeType \<Rightarrow> ('p \<Rightarrow> 'p \<Rightarrow> 'd) \<Rightarrow> 'p \<Rightarrow> 'p list \<Rightarrow> 'b node \<Rightarrow> bool"
  where
  "point_bounds K M q ds (LeafNode b s c) = point_ok K M q ds b [s..<s + c]"
| "point_bounds K M q ds (InnerNode b s c l r) =
     (point_ok K M q ds b [s..<s + c] \<and> point_bounds K M q ds l \<and> point_bounds K M q ds r)"

definition pair_ok ::
  "('p, 'b, 'd::linorder) TreeType \<Rightarrow> ('p \<Rightarrow> 'p \<Rightarrow> 'd) \<Rightarrow> 'p list \<Rightarrow> 'p list \<Rightarrow> 'b \<Rightarrow> 'b
     \<Rightarrow> nat list \<Rightarrow> nat list \<Rightarrow> bool" where
  "pair_ok K M qds rds qb rb is js =
     list_all (\<lambda>i. list_all (\<lambda>j. MinDistanceNode K qb rb \<le> M (qds ! i) (rds ! j)
                                  \<and> M (qds ! i) (rds ! j) \<le> MaxDistanceNode K qb rb) js) is"

fun node_bounds ::
  "('p, 'b, 'd::linorder) TreeType \<Rightarrow> ('p \<Rightarrow> 'p \<Rightarrow> 'd) \<Rightarrow> 'p list \<Rightarrow> 'p list \<Rightarrow> 'b node \<Rightarrow> 'b node
     \<Rightarrow> bool" where
  "node_bounds K M qds rds (LeafNode qb qs qc) (LeafNode rb rs rc) =
     pair_ok K M qds rds qb rb [qs..<qs + qc] [rs..<rs + rc]"
| "node_bounds K M qds rds (LeafNode qb qs qc) (InnerNode rb rs rc rl rr) =
     (pair_ok K M qds rds qb rb [qs..<qs + qc] [rs..<rs + rc]
      \<and> node_bounds K M qds rds (LeafNode qb qs qc) rl
      \<and> node_bounds K M qds rds (LeafNode qb qs qc) rr)"
| "node_bounds K M qds rds (InnerNode qb qs qc ql qr) (LeafNode rb rs rc) =
     (pair_ok K M qds rds qb rb [qs..<qs + qc] [rs..<rs + rc]
      \<and> node_bounds K M qds rds ql (LeafNode rb rs rc)
      \<and> node_bounds K M qds rds qr (LeafNode rb rs rc))"
| "node_bounds K M qds rds (InnerNode qb qs qc ql qr) (InnerNode rb rs rc rl rr) =
     (pair_ok K M qds rds qb rb [qs..<qs + qc] [rs..<rs + rc]
      \<and> node_bounds K M qds rds ql rl \<and> node_bounds K M qds rds ql rr
      \<and> node_bounds K M qds rds qr rl \<and> node_bounds K M qds rds qr rr)"

subsection \<open>The state of a RangeSearch object and of a call\<close>

text \<open>
  \<open>rs_inv K h rs U\<close>: the object \<open>rs\<close> searches the reference set \<open>U\<close> as its
  caller indexes it.  In naive mode it holds \<open>U\<close> itself and owns nothing; otherwise
  its tree is live and covers the points of \<open>U\<close>, and either it owns a tree that
  rearranged \<open>U\<close>, with the permutation record, or its reference set is \<open>U\<close>.
\<close>

definition rs_inv ::
  "('p, 'b, 'd) TreeType \<Rightarrow> ('p, 'b) heap \<Rightarrow> ('p, 'd) RangeSearch \<Rightarrow> 'p list \<Rightarrow> bool" where
  "rs_inv K h rs U =
     (if naive rs then \<not> treeOwner rs \<and> referenceSet rs = U
      else
        (case deref h (referenceTree rs) of
           None \<Rightarrow> False
         | Some t \<Rightarrow>
             tree_shape (Root t) (length U)
             \<and> (if treeOwner rs \<and> RearrangesDataset K
                then perm_record (oldFromNewReferences rs) (length U)
                     \<and> referenceSet rs = map (\<lambda>i. U ! (oldFromNewReferences rs ! i)) [0..<length U]
                else referenceSet rs = U)))"

text \<open>
  What Search with the query set \<open>Q\<close> needs of the tree type: in single-tree mode
  valid bounds of the reference tree for every query point; in dual-tree mode a
  query tree built to contract and valid bounds for the pairs of nodes.
\<close>

definition set_contract ::
  "('p, 'b, 'd::linorder) TreeType \<Rightarrow> ('p, 'b) heap \<Rightarrow> ('p, 'd) RangeSearch \<Rightarrow> 'p list \<Rightarrow> bool"
  where
  "set_contract K h rs Q =
     (if naive rs then True
      else
        (case deref h (referenceTree rs) of
           None \<Rightarrow> False
         | Some t \<Rightarrow>
             if singleMode rs
             then list_all (\<lambda>q. point_bounds K (metric rs) q (referenceSet rs) (Root t)) Q
             else built_ok K Q
                  \<and> node_bounds K (metric rs) (Dataset (fst (BuildTree K Q []))) (referenceSet rs)
                      (Root (fst (BuildTree K Q []))) (Root t)))"



subsection \<open>The result the spec asks for\<close>

text \<open>
  Following the spec (section 3): reference point \<open>j\<close> is in range of query \<open>q\<close>
  iff the distance is in the closed interval; with \<open>self\<close> set the query point
  itself is left out.  A result is right when the call returned, both buffers have
  one entry for each query point, the neighbours of each query are the in-range
  reference indices in some order, each once, and the distance at each position is
  the distance to the neighbour at that position.
\<close>

definition in_range ::
  "('p \<Rightarrow> 'p \<Rightarrow> 'd::linorder) \<Rightarrow> 'p list \<Rightarrow> 'p list \<Rightarrow> 'd Range \<Rightarrow> bool \<Rightarrow> nat \<Rightarrow> nat list" where
  "in_range M Q U rng self q =
     filter (\<lambda>j. \<not> (self \<and> q = j) \<and> Contains rng (M (Q ! q) (U ! j))) [0..<length U]"

definition result_ok ::
  "('p \<Rightarrow> 'p \<Rightarrow> 'd::linorder) \<Rightarrow> 'p list \<Rightarrow> 'p list \<Rightarrow> 'd Range \<Rightarrow> bool
     \<Rightarrow> error option \<times> nat list list \<times> 'd list list \<Rightarrow> bool" where
  "result_ok M Q U rng self res =
     (case res of
        (st, nb, ds) \<Rightarrow>
          st = None \<and> length nb = length Q \<and> length ds = length Q
          \<and> list_all (\<lambda>q. mset (nb ! q) = mset (in_range M Q U rng self q)
                            \<and> ds ! q = map (\<lambda>j. M (Q ! q) (U ! j)) (nb ! q)) [0..<length Q])"

text \<open>
  The part of this that does not depend on the pruning: the call returned, both
  buffers have one entry for each query point, every reported neighbour is a
  reference index whose distance is in the range (and is not the query itself
  with \<open>self\<close> set), and the distance at each position is the distance to the
  neighbour at that position.
\<close>

definition sound_ok ::
  "('p \<Rightarrow> 'p \<Rightarrow> 'd::linorder) \<Rightarrow> 'p list \<Rightarrow> 'p list \<Rightarrow> 'd Range \<Rightarrow> bool
     \<Rightarrow> error option \<times> nat list list \<times> 'd list list \<Rightarrow> bool" where
  "sound_ok M Q U rng self res =
     (case res of
        (st, nb, ds) \<Rightarrow>
          st = None \<and> length nb = length Q \<and> length ds = length Q
          \<and> list_all (\<lambda>q. list_all (\<lambda>j. j < length U \<and> \<not> (self \<and> q = j)
                                          \<and> Contains rng (M (Q ! q) (U ! j))) (nb ! q)
                            \<and> ds ! q = map (\<lambda>j. M (Q ! q) (U ! j)) (nb ! q)) [0..<length Q])"

text \<open>
  The shape of the two buffers after a call: one entry for each query point, and
  for every query the two sequences have the same length and the distance at
  position \<open>k\<close> is the distance from the query to the neighbour at position \<open>k\<close>.
\<close>

definition buffers_ok ::
  "('p \<Rightarrow> 'p \<Rightarrow> 'd) \<Rightarrow> 'p list \<Rightarrow> 'p list \<Rightarrow> error option \<times> nat list list \<times> 'd list list
     \<Rightarrow> bool" where
  "buffers_ok M Q U res =
     (case res of
        (st, nb, ds) \<Rightarrow>
          length nb = length Q \<and> length ds = length Q
          \<and> list_all (\<lambda>q. length (nb ! q) = length (ds ! q)
                            \<and> list_all (\<lambda>k. ds ! q ! k = M (Q ! q) (U ! (nb ! q ! k)))
                                  [0..<length (nb ! q)]) [0..<length Q])"

text \<open>
  What Search with the query set \<open>Q\<close> needs for that: in dual-tree mode, a query
  tree built to contract.
\<close>

definition set_shape ::
  "('p, 'b, 'd) TreeType \<Rightarrow> ('p, 'd) RangeSearch \<Rightarrow> 'p list \<Rightarrow> bool" where
  "set_shape K rs Q = (if naive rs \<or> singleMode rs then True else built_ok K Q)"

text \<open>The pairs (reference index, distance) a result holds for query \<open>q\<close>.\<close>

definition pairs_of ::
  "error option \<times> nat list list \<times> 'd list list \<Rightarrow> nat \<Rightarrow> (nat \<times> 'd) set" where
  "pairs_of res q = set (zip (fst (snd res) ! q) (snd (snd res) ! q))"

subsection \<open>An owner on the integer line\<close>



subsection \<open>A borrowed tree on the integer line\<close>

text \<open>
  A heap with one tree built by a caller, and the object the constructor from a
  tree makes of it in dual-tree mode.
\<close>

definition borrowedHeap :: "(int, int \<times> int) heap" where
  "borrowedHeap = [Some (lineTree [4, 3, 0])]"

definition borrower :: "(int, int) RangeSearch" where
  "borrower =
     \<lparr>oldFromNewReferences = [], referenceTree = Some 0, referenceSet = [4, 3, 0],
      treeOwner = False, naive = False, singleMode = False, metric = lineMetric\<rparr>"

section \<open>Construction and teardown\<close>

lemma deref_new_tree:
  "deref (h @ [Some t]) (Some (length h)) = Some t"
  by (simp add: deref_def)

lemma deref_append_old:
  "a < length h \<Longrightarrow> deref (h @ [x]) (Some a) = deref h (Some a)"
  by (simp add: deref_def nth_append)

lemma deref_Some_less:
  "deref h (Some a) = Some t \<Longrightarrow> a < length h"
  by (simp add: deref_def split: if_splits)

lemma deref_delete_other:
  "a \<noteq> b \<Longrightarrow> deref (delete_tree h b) (Some a) = deref h (Some a)"
  by (simp add: deref_def delete_tree_def)

lemma deref_delete_same:
  "deref (delete_tree h a) (Some a) = None"
  by (simp add: deref_def delete_tree_def)

text \<open>
  C4.  The constructor from a reference set with \<open>naive\<close> set stores \<open>singleMode\<close>
  as false whatever the caller asked for, builds no tree (the pointer is null and
  the heap is as before) and is not the owner; without \<open>naive\<close> it builds a tree at a
  fresh address, which is live afterwards, keeps every older tree, and is the
  owner.  The constructor from a tree stores \<open>treeOwner\<close> and \<open>naive\<close> as false.
\<close>

theorem constructor_flags:
  "RangeSearch_set K h refs True sm M =
     (\<lparr>oldFromNewReferences = [], referenceTree = None, referenceSet = refs,
       treeOwner = False, naive = True, singleMode = False, metric = M\<rparr>, h)
   \<and> (case RangeSearch_set K h refs False sm M of
        (rs, h') \<Rightarrow>
          treeOwner rs = True \<and> naive rs = False \<and> singleMode rs = sm
          \<and> referenceTree rs = Some (length h)
          \<and> h' = h @ [Some (fst (BuildTree K refs []))]
          \<and> deref h' (referenceTree rs) = Some (fst (BuildTree K refs []))
          \<and> referenceSet rs = Dataset (fst (BuildTree K refs []))
          \<and> oldFromNewReferences rs = snd (BuildTree K refs []))
   \<and> (deref h p = Some t \<longrightarrow>
        RangeSearch_tree h p sm M =
          Inr \<lparr>oldFromNewReferences = [], referenceTree = p, referenceSet = Dataset t,
               treeOwner = False, naive = False, singleMode = sm, metric = M\<rparr>)"
  by (simp add: RangeSearch_set_def RangeSearch_tree_def new_tree_def deref_new_tree
      split: prod.splits)

theorem constructor_flags_witness:
  "deref [Some (lineTree [5, 1])] (Some 0) = Some (lineTree [5, 1])
   \<and> singleMode (fst (RangeSearch_set (lineKit True) [Some (lineTree [5, 1])] [0, 3, 4]
                          True True lineMetric)) = False
   \<and> treeOwner (fst (RangeSearch_set (lineKit True) [Some (lineTree [5, 1])] [0, 3, 4]
                         False True lineMetric)) = True
   \<and> RangeSearch_tree [Some (lineTree [5, 1])] (Some 0) True lineMetric =
       Inr \<lparr>oldFromNewReferences = [], referenceTree = Some 0, referenceSet = [5, 1],
            treeOwner = False, naive = False, singleMode = True, metric = lineMetric\<rparr>"
  using constructor_flags [where K = "lineKit True" and h = "[Some (lineTree [5, 1])]"
      and refs = "[0, 3, 4]" and sm = True and M = lineMetric and p = "Some 0"
      and t = "lineTree [5, 1]"]
  by (simp add: deref_def RangeSearch_set_def lineTree_def split: prod.splits)

lemma live_destroy:
  "live (destroy h rs) b = (live h b \<and> \<not> (treeOwner rs \<and> referenceTree rs = Some b))"
proof (cases "treeOwner rs \<and> referenceTree rs \<noteq> None")
  case False
  then show ?thesis
    by (auto simp: destroy_def)
next
  case True
  then obtain y where y: "referenceTree rs = Some y" and own: "treeOwner rs"
    by auto
  show ?thesis
  proof (cases "y = b")
    case True
    then show ?thesis
      using y own by (simp add: destroy_def live_def deref_delete_same)
  next
    case False
    then show ?thesis
      using y own by (simp add: destroy_def live_def deref_delete_other)
  qed
qed

text \<open>
  C5.  After the destructor a tree is live exactly when it was live before and is
  not the tree of an owner.  With an external tree at address \<open>a\<close>, an owner built
  from a reference set and a borrower built from the external tree: the teardown of
  the borrower leaves the heap as it is, the teardown of the owner deletes the
  owner's tree and leaves the external tree live, so that the borrower can still be
  built from it, and the two teardowns commute.
\<close>

theorem destructor_ownership:
  assumes "deref h (Some a) = Some t"
    and "RangeSearch_set K h refs False sm M = (rsO, h1)"
    and "RangeSearch_tree h1 (Some a) sm' M' = Inr rsB"
  shows "(\<forall>h0 rs b. live (destroy h0 (rs :: ('p, 'd) RangeSearch)) b
            = (live (h0 :: ('p, 'b) heap) b \<and> \<not> (treeOwner rs \<and> referenceTree rs = Some b)))
    \<and> destroy h1 rsB = h1
    \<and> deref (destroy h1 rsO) (Some a) = Some t
    \<and> deref (destroy h1 rsO) (referenceTree rsO) = None
    \<and> RangeSearch_tree (destroy h1 rsO) (Some a) sm' M' = Inr rsB
    \<and> destroy (destroy h1 rsO) rsB = destroy (destroy h1 rsB) rsO"
proof -
  have a_less: "a < length h"
    using assms(1) by (rule deref_Some_less)
  have h1: "h1 = h @ [Some (fst (BuildTree K refs []))]"
    and ptrO: "referenceTree rsO = Some (length h)" and ownO: "treeOwner rsO"
    using assms(2) by (auto simp: RangeSearch_set_def new_tree_def split: prod.splits)
  have old: "deref h1 (Some a) = Some t"
    using assms(1) a_less by (simp add: h1 deref_append_old)
  have ownB: "\<not> treeOwner rsB"
    using assms(3) by (auto simp: RangeSearch_tree_def split: option.splits)
  have keepB: "destroy h1 rsB = h1"
    using ownB by (simp add: destroy_def)
  have dO: "destroy h1 rsO = delete_tree h1 (length h)"
    using ownO ptrO by (simp add: destroy_def)
  have ext: "deref (destroy h1 rsO) (Some a) = Some t"
    using a_less old by (simp add: dO deref_delete_other)
  have gone: "deref (destroy h1 rsO) (referenceTree rsO) = None"
    by (simp add: dO ptrO deref_delete_same)
  have again: "RangeSearch_tree (destroy h1 rsO) (Some a) sm' M' = Inr rsB"
    using assms(3) old ext by (simp add: RangeSearch_tree_def)
  have comm: "destroy (destroy h1 rsO) rsB = destroy (destroy h1 rsB) rsO"
    using ownB by (simp add: destroy_def)
  have iff: "\<forall>h0 rs b. live (destroy h0 (rs :: ('p, 'd) RangeSearch)) b
            = (live (h0 :: ('p, 'b) heap) b \<and> \<not> (treeOwner rs \<and> referenceTree rs = Some b))"
    by (simp add: live_destroy)
  show ?thesis
    using iff keepB ext gone again comm by blast
qed

theorem destructor_ownership_witness:
  "deref (destroy (snd (RangeSearch_set (lineKit True) [Some (lineTree [5, 1])] [0, 3, 4]
                          False False lineMetric))
            (fst (RangeSearch_set (lineKit True) [Some (lineTree [5, 1])] [0, 3, 4]
                          False False lineMetric))) (Some 0)
     = Some (lineTree [5, 1])
   \<and> deref (destroy (snd (RangeSearch_set (lineKit True) [Some (lineTree [5, 1])] [0, 3, 4]
                          False False lineMetric))
            (fst (RangeSearch_set (lineKit True) [Some (lineTree [5, 1])] [0, 3, 4]
                          False False lineMetric))) (Some 1)
     = None"
proof -
  obtain rsO h1 where o: "RangeSearch_set (lineKit True) [Some (lineTree [5, 1])] [0, 3, 4]
      False False lineMetric = (rsO, h1)"
    by (cases "RangeSearch_set (lineKit True) [Some (lineTree [5, 1])] [0, 3, 4]
      False False lineMetric") auto
  have a: "deref [Some (lineTree [5, 1])] (Some 0) = Some (lineTree [5, 1])"
    by (simp add: deref_def)
  have h1: "h1 = [Some (lineTree [5, 1]), Some (fst (BuildTree (lineKit True) [0, 3, 4] []))]"
    and ptrO: "referenceTree rsO = Some 1"
    using o by (auto simp: RangeSearch_set_def new_tree_def split: prod.splits)
  obtain rsB where b: "RangeSearch_tree h1 (Some 0) True lineMetric = Inr rsB"
    by (simp add: h1 RangeSearch_tree_def deref_def)
  from destructor_ownership [OF a o b]
  have "deref (destroy h1 rsO) (Some 0) = Some (lineTree [5, 1])"
    and "deref (destroy h1 rsO) (referenceTree rsO) = None"
    by blast+
  then show ?thesis
    by (simp add: o ptrO)
qed

text \<open>
  C3.  Search with a query tree on an object in naive or single-tree mode ends
  with the invalid-argument error, and the caller's two buffers are what they were
  before the call.
\<close>

theorem query_tree_usage_error:
  assumes "singleMode rs \<or> naive rs"
    and "deref h queryTree = Some qt"
  shows "Search_tree K h rs queryTree rng nb0 ds0 = (Some InvalidArgument, nb0, ds0)"
  using assms by (auto simp: Search_tree_def)

theorem query_tree_usage_error_witness:
  "Search_tree (lineKit True) [Some (lineTree [5, 1])]
     (fst (RangeSearch_set (lineKit True) [Some (lineTree [5, 1])] [0, 3, 4] True False lineMetric))
     (Some 0) \<lparr>Lo = 0, Hi = 5\<rparr> [[7, 8]] [[1, 2]]
   = (Some InvalidArgument, [[7, 8]], [[1, 2]])"
proof -
  have n: "singleMode (fst (RangeSearch_set (lineKit True) [Some (lineTree [5, 1])] [0, 3, 4]
      True False lineMetric))
    \<or> naive (fst (RangeSearch_set (lineKit True) [Some (lineTree [5, 1])] [0, 3, 4]
      True False lineMetric))"
    by (simp add: RangeSearch_set_def)
  have q: "deref [Some (lineTree [5, 1])] (Some 0) = Some (lineTree [5, 1])"
    by (simp add: deref_def)
  show ?thesis
    by (rule query_tree_usage_error [OF n q])
qed

section \<open>Traversals as lists of base cases\<close>

text \<open>
  Every traversal of the model is the run of a list of base cases, and the run of a
  list of calls on fresh buffers leaves, for each query, the hits in call order.
\<close>

lemma BaseCase_hit:
  "BaseCase R i j (nb, ds) =
     (if hit R i j then (nb[i := nb ! i @ [j]], ds[i := ds ! i @ [dist R i j]]) else (nb, ds))"
  by (auto simp: BaseCase_def hit_def dist_def Let_def)

lemma hits_Nil [simp]: "hits R q [] = []"
  by (simp add: hits_def)

lemma hits_Cons:
  "hits R q (c # cs) = (if fst c = q \<and> hit R q (snd c) then snd c # hits R q cs else hits R q cs)"
  by (simp add: hits_def)

lemma hits_append [simp]: "hits R q (cs @ cs') = hits R q cs @ hits R q cs'"
  by (simp add: hits_def)

lemma run_calls_eq:
  "length nb = n \<Longrightarrow> length ds = n \<Longrightarrow>
   run_calls R cs (nb, ds) =
     (map (\<lambda>q. nb ! q @ hits R q cs) [0..<n],
      map (\<lambda>q. ds ! q @ map (dist R q) (hits R q cs)) [0..<n])"
proof (induction cs arbitrary: nb ds)
  case Nil
  have "map ((!) nb) [0..<length nb] = nb" "map ((!) ds) [0..<length ds] = ds"
    by (rule map_nth)+
  with Nil show ?case
    by (simp add: run_calls_def)
next
  case (Cons c cs)
  obtain i j where c: "c = (i, j)"
    by (cases c)
  show ?case
  proof (cases "hit R i j")
    case False
    then have "run_calls R (c # cs) (nb, ds) = run_calls R cs (nb, ds)"
      by (simp add: run_calls_def c BaseCase_hit)
    then show ?thesis
      using Cons False by (auto simp: c hits_Cons)
  next
    case True
    let ?nb = "nb[i := nb ! i @ [j]]" and ?ds = "ds[i := ds ! i @ [dist R i j]]"
    have "run_calls R (c # cs) (nb, ds) = run_calls R cs (?nb, ?ds)"
      using True by (simp add: run_calls_def c BaseCase_hit)
    also have "\<dots> = (map (\<lambda>q. ?nb ! q @ hits R q cs) [0..<n],
        map (\<lambda>q. ?ds ! q @ map (dist R q) (hits R q cs)) [0..<n])"
      using Cons by simp
    also have "\<dots> = (map (\<lambda>q. nb ! q @ hits R q (c # cs)) [0..<n],
        map (\<lambda>q. ds ! q @ map (dist R q) (hits R q (c # cs))) [0..<n])"
    proof -
      have "?nb ! q @ hits R q cs = nb ! q @ hits R q (c # cs)"
        and "?ds ! q @ map (dist R q) (hits R q cs)
            = ds ! q @ map (dist R q) (hits R q (c # cs))" if "q < n" for q
        using that Cons.prems True by (cases "q = i"; simp add: c hits_Cons)+
      then show ?thesis
        by simp
    qed
    finally show ?thesis .
  qed
qed

lemma run_calls_append: "run_calls R (cs @ cs') res = run_calls R cs' (run_calls R cs res)"
  by (simp add: run_calls_def)

lemma run_calls_Nil [simp]: "run_calls R [] res = res"
  by (simp add: run_calls_def)

lemma fold_BaseCase_row:
  "fold (BaseCase R i) js res = run_calls R (map (Pair i) js) res"
  by (simp add: run_calls_def fold_map comp_def)

lemma fold_BaseCase_product:
  "fold (\<lambda>i. fold (BaseCase R i) js) is res = run_calls R (List.product is js) res"
  by (induction "is" arbitrary: res) (simp_all add: run_calls_append fold_BaseCase_row)

lemma NaiveLoop_calls:
  "NaiveLoop R n m res = run_calls R (List.product [0..<n] [0..<m]) res"
  by (simp add: NaiveLoop_def fold_BaseCase_product)

lemma SingleTraverse_calls:
  "SingleTraverse K R i nd res = run_calls R (map (Pair i) (single_calls K R i nd)) res"
  by (induction nd arbitrary: res) (simp_all add: fold_BaseCase_row run_calls_append)

lemma SingleLoop_calls:
  "SingleLoop K R n root res =
     run_calls R (concat (map (\<lambda>i. map (Pair i) (single_calls K R i root)) [0..<n])) res"
proof -
  have "fold (\<lambda>i. SingleTraverse K R i root) is res =
      run_calls R (concat (map (\<lambda>i. map (Pair i) (single_calls K R i root)) is)) res" for "is"
    by (induction "is" arbitrary: res) (simp_all add: run_calls_append SingleTraverse_calls)
  then show ?thesis
    by (simp add: SingleLoop_def)
qed

lemma DualTraverse_calls:
  "DualTraverse K R qn rn res = run_calls R (dual_calls K R qn rn) res"
  by (induction K R qn rn arbitrary: res rule: dual_calls.induct)
    (simp_all add: fold_BaseCase_product run_calls_append)

lemma hits_row:
  "hits R q (map (Pair i) js) = (if i = q then filter (hit R q) js else [])"
  by (induction js) (auto simp: hits_Cons)

lemma hits_rows:
  "distinct is \<Longrightarrow>
   hits R q (concat (map (\<lambda>i. map (Pair i) (f i)) is)) =
     (if q \<in> set is then filter (hit R q) (f q) else [])"
  by (induction "is") (auto simp: hits_row)

lemma hits_product:
  "distinct is \<Longrightarrow>
   hits R q (List.product is js) = (if q \<in> set is then filter (hit R q) js else [])"
  by (induction "is") (auto simp: hits_row)

section \<open>What the tree traversals find\<close>

text \<open>
  With a well-formed tree and valid bounds, pruning loses nothing: for each query the
  tree traversals append exactly the hits among the points of the root.
\<close>

lemma span_Leaf [simp]: "span (LeafNode b s c) = [s..<s + c]"
  by (simp add: span_def)

lemma span_Inner_raw [simp]: "span (InnerNode b s c l r) = [s..<s + c]"
  by (simp add: span_def)

lemma span_children:
  "wf_node (InnerNode b s c l r) \<Longrightarrow> [s..<s + c] = span l @ span r"
proof -
  assume wf: "wf_node (InnerNode b s c l r)"
  then have "[s..<s + c] = [s..<s + Count l + Count r]"
    by (simp add: add.assoc)
  also have "\<dots> = [s..<s + Count l] @ [s + Count l..<s + Count l + Count r]"
    by (rule upt_add_eq_append) simp
  finally show ?thesis
    using wf by (simp add: span_def)
qed

lemma span_children_disjoint:
  "wf_node (InnerNode b s c l r) \<Longrightarrow> q \<in> set (span l) \<Longrightarrow> q \<notin> set (span r)"
  by (simp add: span_def)

lemma span_node_cases: "span nd = [Begin nd..<Begin nd + Count nd]"
  by (rule span_def)

lemma prune_point_no_hit:
  assumes "PrunePoint K R i b"
    and "point_ok K (rMetric R) (rQuerySet R ! i) (rReferenceSet R) b js"
  shows "filter (hit R i) js = []"
proof -
  have "\<not> hit R i j" if "j \<in> set js" for j
  proof -
    have "MinDistance K (rQuerySet R ! i) b \<le> dist R i j
        \<and> dist R i j \<le> MaxDistance K (rQuerySet R ! i) b"
      using assms(2) that by (simp add: point_ok_def list_all_iff dist_def)
    then show ?thesis
      using assms(1) by (auto simp: PrunePoint_def hit_def Contains_def)
  qed
  then show ?thesis
    by (simp add: filter_empty_conv)
qed

lemma single_hits:
  "wf_node nd \<Longrightarrow> point_bounds K (rMetric R) (rQuerySet R ! i) (rReferenceSet R) nd \<Longrightarrow>
   filter (hit R i) (single_calls K R i nd) = filter (hit R i) (span nd)"
proof (induction nd)
  case (LeafNode b s c)
  then show ?case
    by (simp add: prune_point_no_hit)
next
  case (InnerNode b s c l r)
  show ?case
  proof (cases "PrunePoint K R i b")
    case True
    then show ?thesis
      using InnerNode.prems by (simp add: prune_point_no_hit)
  next
    case False
    have "[s..<s + c] = span l @ span r"
      using InnerNode.prems(1) by (rule span_children)
    then show ?thesis
      using False InnerNode by simp
  qed
qed

lemma prune_node_no_hit:
  assumes "PruneNode K R qb rb"
    and "pair_ok K (rMetric R) (rQuerySet R) (rReferenceSet R) qb rb is js"
    and "q \<in> set is"
  shows "filter (hit R q) js = []"
proof -
  have "\<not> hit R q j" if "j \<in> set js" for j
  proof -
    have "MinDistanceNode K qb rb \<le> dist R q j \<and> dist R q j \<le> MaxDistanceNode K qb rb"
      using assms(2,3) that by (simp add: pair_ok_def list_all_iff dist_def)
    then show ?thesis
      using assms(1) by (auto simp: PruneNode_def hit_def Contains_def)
  qed
  then show ?thesis
    by (simp add: filter_empty_conv)
qed

lemma dual_hits:
  "wf_node qn \<Longrightarrow> wf_node rn \<Longrightarrow>
   node_bounds K (rMetric R) (rQuerySet R) (rReferenceSet R) qn rn \<Longrightarrow>
   hits R q (dual_calls K R qn rn) =
     (if q \<in> set (span qn) then filter (hit R q) (span rn) else [])"
proof (induction K R qn rn rule: dual_calls.induct)
  case (1 K R qb qs qc rb rs rc)
  show ?case
  proof (cases "PruneNode K R qb rb")
    case True
    then show ?thesis
      using 1 prune_node_no_hit [of K R qb rb "[qs..<qs + qc]" "[rs..<rs + rc]" q]
      by auto
  next
    case False
    then show ?thesis
      by (simp add: hits_product)
  qed
next
  case (2 K R qb qs qc rb rs rc rl rr)
  show ?case
  proof (cases "PruneNode K R qb rb")
    case True
    then show ?thesis
      using 2 prune_node_no_hit [of K R qb rb "[qs..<qs + qc]" "[rs..<rs + rc]" q]
      by auto
  next
    case False
    have "[rs..<rs + rc] = span rl @ span rr"
      using "2.prems"(2) by (rule span_children)
    then show ?thesis
      using False 2 by simp
  qed
next
  case (3 K R qb qs qc ql qr rb rs rc)
  show ?case
  proof (cases "PruneNode K R qb rb")
    case True
    then show ?thesis
      using 3 prune_node_no_hit [of K R qb rb "[qs..<qs + qc]" "[rs..<rs + rc]" q]
      by auto
  next
    case False
    have sp: "[qs..<qs + qc] = span ql @ span qr"
      using "3.prems"(1) by (rule span_children)
    have dj: "q \<in> set (span ql) \<Longrightarrow> q \<notin> set (span qr)"
      using "3.prems"(1) by (rule span_children_disjoint)
    have "hits R q (dual_calls K R (InnerNode qb qs qc ql qr) (LeafNode rb rs rc)) =
        (if q \<in> set (span ql) then filter (hit R q) [rs..<rs + rc] else [])
        @ (if q \<in> set (span qr) then filter (hit R q) [rs..<rs + rc] else [])"
      using False 3 by simp
    then show ?thesis
      using dj by (auto simp: sp simp del: set_upt)
  qed
next
  case (4 K R qb qs qc ql qr rb rs rc rl rr)
  show ?case
  proof (cases "PruneNode K R qb rb")
    case True
    then show ?thesis
      using 4 prune_node_no_hit [of K R qb rb "[qs..<qs + qc]" "[rs..<rs + rc]" q]
      by auto
  next
    case False
    have sp: "[qs..<qs + qc] = span ql @ span qr"
      using "4.prems"(1) by (rule span_children)
    have sr: "[rs..<rs + rc] = span rl @ span rr"
      using "4.prems"(2) by (rule span_children)
    have dj: "q \<in> set (span ql) \<Longrightarrow> q \<notin> set (span qr)"
      using "4.prems"(1) by (rule span_children_disjoint)
    have "hits R q (dual_calls K R (InnerNode qb qs qc ql qr) (InnerNode rb rs rc rl rr)) =
        (if q \<in> set (span ql) then filter (hit R q) (span rl) @ filter (hit R q) (span rr) else [])
        @ (if q \<in> set (span qr) then filter (hit R q) (span rl) @ filter (hit R q) (span rr)
           else [])"
      using False 4 by simp
    then show ?thesis
      using dj by (auto simp: sp sr simp del: set_upt)
  qed
qed

section \<open>Search with a query set, branch by branch\<close>

text \<open>
  The result of each branch of lines 98 to 248 as a function of the calls of its
  traversal.
\<close>

lemma run_calls_fresh:
  "run_calls R cs (replicate n [], replicate n []) = (resN R cs n, resD R cs n)"
  using run_calls_eq [of "replicate n []" n "replicate n []" R cs]
  by (simp add: resN_def resD_def cong: map_cong)

lemma length_resN [simp]: "length (resN R cs n) = n"
  by (simp add: resN_def)

lemma length_resD [simp]: "length (resD R cs n) = n"
  by (simp add: resD_def)

lemma nth_resN: "q < n \<Longrightarrow> resN R cs n ! q = hits R q cs"
  by (simp add: resN_def)

lemma nth_resD: "q < n \<Longrightarrow> resD R cs n ! q = map (dist R q) (hits R q cs)"
  by (simp add: resD_def)

lemmas store_defs = getN_def getD_def putN_def putD_def through_def delete_all_def

lemma Search_set_naive:
  assumes "naive rs" and "\<not> treeOwner rs"
  shows "Search_set K h rs Q rng nb0 ds0 =
    (let R = \<lparr>rReferenceSet = referenceSet rs, rQuerySet = Q, rRange = rng,
              rMetric = metric rs, rSameSet = False\<rparr>;
         cs = List.product [0..<length Q] [0..<length (referenceSet rs)]
     in (None, resN R cs (length Q), resD R cs (length Q)))"
  using assms
  by (simp add: Search_set_def Traverse_set_def Remap_set_def Let_def store_defs
      NaiveLoop_calls run_calls_fresh)

lemma Search_set_single_plain:
  assumes "\<not> naive rs" and "singleMode rs" and "deref h (referenceTree rs) = Some t"
    and "\<not> (RearrangesDataset K \<and> treeOwner rs)"
  shows "Search_set K h rs Q rng nb0 ds0 =
    (let R = \<lparr>rReferenceSet = referenceSet rs, rQuerySet = Q, rRange = rng,
              rMetric = metric rs, rSameSet = False\<rparr>;
         cs = concat (map (\<lambda>i. map (Pair i) (single_calls K R i (Root t))) [0..<length Q])
     in (None, resN R cs (length Q), resD R cs (length Q)))"
  using assms
  by (auto simp add: Search_set_def Traverse_set_def Remap_set_def Let_def store_defs
      SingleLoop_calls run_calls_fresh)

lemma Search_set_dual_plain:
  assumes "\<not> naive rs" and "\<not> singleMode rs" and "deref h (referenceTree rs) = Some t"
    and "\<not> RearrangesDataset K"
  shows "Search_set K h rs Q rng nb0 ds0 =
    (let qt = NewPlain K Q;
         R = \<lparr>rReferenceSet = referenceSet rs, rQuerySet = Dataset qt, rRange = rng,
              rMetric = metric rs, rSameSet = False\<rparr>;
         cs = dual_calls K R (Root qt) (Root t)
     in (None, resN R cs (length Q), resD R cs (length Q)))"
  using assms
  by (simp add: Search_set_def Traverse_set_def Remap_set_def Let_def store_defs
      DualTraverse_calls run_calls_fresh BuildTree_def)

lemma length_scatter [simp]: "length (scatter p f k xs) = length xs"
  by (induction k) (simp_all add: scatter_def)

lemma scatter_Suc: "scatter p f (Suc k) xs = (scatter p f k xs)[p ! k := f k]"
  by (simp add: scatter_def)

lemma scatter_0 [simp]: "scatter p f 0 xs = xs"
  by (simp add: scatter_def)

lemma scatter_nth:
  "distinct p \<Longrightarrow> k \<le> length p \<Longrightarrow> (\<forall>i<k. p ! i < length xs) \<Longrightarrow> i < k \<Longrightarrow>
   scatter p f k xs ! (p ! i) = f i"
proof (induction k)
  case 0
  then show ?case by simp
next
  case (Suc k)
  show ?case
  proof (cases "i = k")
    case True
    then show ?thesis
      using Suc.prems by (simp add: scatter_Suc)
  next
    case False
    then have ik: "i < k"
      using Suc.prems by simp
    have "p ! i \<noteq> p ! k"
      using Suc.prems ik by (simp add: nth_eq_iff_index_eq)
    then show ?thesis
      using Suc ik by (simp add: scatter_Suc)
  qed
qed

lemma map_nth_comp: "map (\<lambda>j. f (xs ! j)) [0..<length xs] = map f xs"
  by (rule nth_equalityI) simp_all

lemma fold_MapBoth:
  "\<forall>i<k. p ! i < length D \<Longrightarrow>
   fold (MapBoth p r Temp Temp) [0..<k]
     \<lparr>neighbors = N, distances = D, tmpNeighbors = tN, tmpDistances = tD\<rparr> =
    \<lparr>neighbors = scatter p (\<lambda>i. map (\<lambda>j. r ! (tN ! i ! j)) [0..<length (tD ! i)]) k N,
     distances = scatter p (\<lambda>i. tD ! i) k D,
     tmpNeighbors = tN, tmpDistances = tD\<rparr>"
proof (induction k)
  case 0
  show ?case by simp
next
  case (Suc k)
  then show ?case
    by (simp add: MapBoth_def Let_def getN_def getD_def scatter_Suc)
qed

lemma fill_step:
  "k < length xs \<Longrightarrow>
   (map f [0..<k] @ drop k xs)[k := f k] = map f [0..<Suc k] @ drop (Suc k) xs"
  by (simp add: list_update_append Cons_nth_drop_Suc [symmetric])

lemma fold_MapReferences:
  "k \<le> length N \<Longrightarrow>
   fold (MapReferences r Temp) [0..<k]
     \<lparr>neighbors = N, distances = D, tmpNeighbors = tN, tmpDistances = tD\<rparr> =
    \<lparr>neighbors = map (\<lambda>i. map ((!) r) (tN ! i)) [0..<k] @ drop k N,
     distances = D, tmpNeighbors = tN, tmpDistances = tD\<rparr>"
proof (induction k)
  case 0
  show ?case by simp
next
  case (Suc k)
  then have k: "k < length N"
    by simp
  show ?case
    using Suc fill_step [OF k, of "\<lambda>i. map ((!) r) (tN ! i)"]
    by (simp add: MapReferences_def getN_def map_nth_comp)
qed

lemma Search_set_single_mapped:
  assumes "\<not> naive rs" and "singleMode rs" and "deref h (referenceTree rs) = Some t"
    and "RearrangesDataset K" and "treeOwner rs"
  shows "Search_set K h rs Q rng nb0 ds0 =
    (let R = \<lparr>rReferenceSet = referenceSet rs, rQuerySet = Q, rRange = rng,
              rMetric = metric rs, rSameSet = False\<rparr>;
         cs = concat (map (\<lambda>i. map (Pair i) (single_calls K R i (Root t))) [0..<length Q])
     in (None,
         map (\<lambda>i. map ((!) (oldFromNewReferences rs)) (resN R cs (length Q) ! i)) [0..<length Q],
         resD R cs (length Q)))"
  using assms
  by (simp add: Search_set_def Traverse_set_def Remap_set_def Let_def store_defs
      SingleLoop_calls run_calls_fresh fold_MapReferences)

lemma Search_set_dual_mapped:
  assumes "\<not> naive rs" and "\<not> singleMode rs" and "deref h (referenceTree rs) = Some t"
    and "RearrangesDataset K" and "treeOwner rs"
    and "NewMapped K Q = (qt, ofnQ)" and "\<forall>i<length Q. ofnQ ! i < length Q"
  shows "Search_set K h rs Q rng nb0 ds0 =
    (let R = \<lparr>rReferenceSet = referenceSet rs, rQuerySet = Dataset qt, rRange = rng,
              rMetric = metric rs, rSameSet = False\<rparr>;
         cs = dual_calls K R (Root qt) (Root t);
         n = length Q
     in (None,
         scatter ofnQ (\<lambda>i. map (\<lambda>j. oldFromNewReferences rs ! (resN R cs n ! i ! j))
                               [0..<length (resD R cs n ! i)]) n (replicate n []),
         scatter ofnQ (\<lambda>i. resD R cs n ! i) n (replicate n [])))"
  using assms
  by (simp add: Search_set_def Traverse_set_def Remap_set_def Let_def store_defs
      DualTraverse_calls run_calls_fresh BuildTree_def fold_MapBoth)

lemma Search_set_dual_borrowed:
  assumes "\<not> naive rs" and "\<not> singleMode rs" and "deref h (referenceTree rs) = Some t"
    and "RearrangesDataset K" and "\<not> treeOwner rs"
  shows "fst (Search_set K h rs Q rng nb0 ds0) = Some InvalidDelete"
  using assms
  by (simp add: Search_set_def Traverse_set_def Remap_set_def Let_def store_defs
      split: prod.splits)

section \<open>Permutation records\<close>

lemma perm_record_set: "perm_record p n \<Longrightarrow> set p = {0..<n}"
proof -
  assume p: "perm_record p n"
  then have "set p \<subseteq> {0..<n}" and "card (set p) = n"
    by (auto simp: perm_record_def list_all_iff distinct_card)
  then show ?thesis
    by (simp add: card_subset_eq)
qed

lemma perm_record_mset: "perm_record p n \<Longrightarrow> mset p = mset [0..<n]"
proof -
  assume p: "perm_record p n"
  have d: "distinct p"
    using p by (simp add: perm_record_def)
  have s: "set p = set [0..<n]"
    using p by (simp add: perm_record_set)
  have "(set p = set [0..<n]) = (mset p = mset [0..<n])"
    using d by (intro set_eq_iff_mset_eq_distinct) simp_all
  then show ?thesis
    using s by blast
qed

lemma perm_record_nth: "perm_record p n \<Longrightarrow> i < n \<Longrightarrow> p ! i < n"
  by (simp add: perm_record_def list_all_length)

lemma perm_record_onto: "perm_record p n \<Longrightarrow> q < n \<Longrightarrow> \<exists>i<n. p ! i = q"
proof -
  assume p: "perm_record p n" and q: "q < n"
  then have "q \<in> set p"
    by (simp add: perm_record_set)
  then obtain i where "i < length p" "p ! i = q"
    by (auto simp: in_set_conv_nth)
  then show ?thesis
    using p by (auto simp: perm_record_def)
qed

lemma perm_record_inj:
  "perm_record p n \<Longrightarrow> i < n \<Longrightarrow> j < n \<Longrightarrow> (p ! i = p ! j) = (i = j)"
  by (simp add: perm_record_def nth_eq_iff_index_eq)

lemma remap_mset:
  assumes "perm_record r m" and "\<And>j. j < m \<Longrightarrow> g' j = g (r ! j)"
  shows "mset (map ((!) r) (filter g' [0..<m])) = mset (filter g [0..<m])"
proof -
  have len: "length r = m"
    using assms(1) by (simp add: perm_record_def)
  have "filter g' [0..<m] = filter (g \<circ> (!) r) [0..<m]"
    using assms(2) by (intro filter_cong) simp_all
  then have "map ((!) r) (filter g' [0..<m]) = filter g (map ((!) r) [0..<m])"
    by (simp add: filter_map)
  also have "map ((!) r) [0..<m] = r"
    using map_nth [of r] by (simp add: len)
  finally have "mset (map ((!) r) (filter g' [0..<m])) = filter_mset g (mset r)"
    by simp
  also have "\<dots> = filter_mset g (mset [0..<m])"
    using assms(1) by (simp add: perm_record_mset)
  finally show ?thesis
    by simp
qed

lemma tree_shape_span: "tree_shape nd n \<Longrightarrow> span nd = [0..<n]"
  by (simp add: tree_shape_def span_def)

lemma tree_shape_wf: "tree_shape nd n \<Longrightarrow> wf_node nd"
  by (simp add: tree_shape_def)

section \<open>Results against the spec\<close>

lemma hit_abs:
  "hit R i = (\<lambda>j. \<not> (rSameSet R \<and> i = j)
                    \<and> Contains (rRange R) (rMetric R (rQuerySet R ! i) (rReferenceSet R ! j)))"
  by (simp add: hit_def dist_def fun_eq_iff)

lemma dist_abs: "dist R i = (\<lambda>j. rMetric R (rQuerySet R ! i) (rReferenceSet R ! j))"
  by (simp add: dist_def fun_eq_iff)

lemma entry_ok:
  assumes r: "perm_record r m" and U: "length U = m"
    and P: "\<And>j. j < m \<Longrightarrow> P ! j = U ! (r ! j)"
    and sf: "sf \<Longrightarrow> i < m \<and> q = r ! i"
    and L: "L = filter (\<lambda>j. \<not> (sf \<and> i = j) \<and> Contains rng (M x (P ! j))) [0..<m]"
  shows "mset (map ((!) r) L)
      = mset (filter (\<lambda>j. \<not> (sf \<and> q = j) \<and> Contains rng (M x (U ! j))) [0..<length U])"
    and "map (\<lambda>j. M x (P ! j)) L = map (\<lambda>j. M x (U ! j)) (map ((!) r) L)"
proof -
  have "(\<not> (sf \<and> i = j) \<and> Contains rng (M x (P ! j)))
      = (\<not> (sf \<and> q = r ! j) \<and> Contains rng (M x (U ! (r ! j))))" if "j < m" for j
    using that P [OF that] sf perm_record_inj [OF r, of i j] by auto
  then show "mset (map ((!) r) L)
      = mset (filter (\<lambda>j. \<not> (sf \<and> q = j) \<and> Contains rng (M x (U ! j))) [0..<length U])"
    unfolding L U by (intro remap_mset [OF r]) simp
  have "M x (P ! j) = M x (U ! (r ! j))" if "j \<in> set L" for j
    using that P by (simp add: L)
  then show "map (\<lambda>j. M x (P ! j)) L = map (\<lambda>j. M x (U ! j)) (map ((!) r) L)"
    by simp
qed

lemma result_ok_plain:
  assumes "R = \<lparr>rReferenceSet = U, rQuerySet = Q, rRange = rng, rMetric = M, rSameSet = sf\<rparr>"
    and "\<And>q. q < length Q \<Longrightarrow> hits R q cs = filter (hit R q) [0..<length U]"
  shows "result_ok M Q U rng sf (None, resN R cs (length Q), resD R cs (length Q))"
  using assms
  by (simp add: result_ok_def list_all_iff nth_resN nth_resD in_range_def hit_def dist_def)

lemma result_ok_references:
  assumes R: "R = \<lparr>rReferenceSet = P, rQuerySet = Q, rRange = rng, rMetric = M,
      rSameSet = False\<rparr>"
    and r: "perm_record r (length U)"
    and P: "P = map (\<lambda>i. U ! (r ! i)) [0..<length U]"
    and hits: "\<And>q. q < length Q \<Longrightarrow> hits R q cs = filter (hit R q) [0..<length U]"
  shows "result_ok M Q U rng False
    (None, map (\<lambda>i. map ((!) r) (resN R cs (length Q) ! i)) [0..<length Q],
     resD R cs (length Q))"
proof -
  have "mset (map ((!) r) (hits R q cs)) = mset (in_range M Q U rng False q)
      \<and> map (dist R q) (hits R q cs) = map (\<lambda>j. M (Q ! q) (U ! j)) (map ((!) r) (hits R q cs))"
    if q: "q < length Q" for q
  proof -
    have L: "hits R q cs
        = filter (\<lambda>j. \<not> (False \<and> q = j) \<and> Contains rng (M (Q ! q) (P ! j))) [0..<length U]"
      using hits [OF q] by (simp add: R hit_abs)
    have Pj: "\<And>j. j < length U \<Longrightarrow> P ! j = U ! (r ! j)"
      by (simp add: P)
    have d: "dist R q = (\<lambda>j. M (Q ! q) (P ! j))"
      by (simp add: R dist_abs)
    have e1: "mset (map ((!) r) (hits R q cs))
        = mset (filter (\<lambda>j. \<not> (False \<and> q = j) \<and> Contains rng (M (Q ! q) (U ! j)))
                  [0..<length U])"
      by (rule entry_ok(1) [where sf = False and i = q and P = P and m = "length U"])
        (simp_all add: r Pj L)
    have e2: "map (\<lambda>j. M (Q ! q) (P ! j)) (hits R q cs)
        = map (\<lambda>j. M (Q ! q) (U ! j)) (map ((!) r) (hits R q cs))"
      by (rule entry_ok(2) [where sf = False and i = q and q = q and rng = rng
            and m = "length U" and r = r])
        (simp_all add: r Pj L)
    show ?thesis
      using e1 e2 by (simp add: in_range_def d)
  qed
  then show ?thesis
    by (simp add: result_ok_def list_all_iff nth_resN nth_resD)
qed

lemma result_ok_both:
  assumes R: "R = \<lparr>rReferenceSet = P, rQuerySet = X, rRange = rng, rMetric = M,
      rSameSet = sf\<rparr>"
    and p: "perm_record p (length Q)" and r: "perm_record r (length U)"
    and P: "P = map (\<lambda>i. U ! (r ! i)) [0..<length U]"
    and X: "X = map (\<lambda>i. Q ! (p ! i)) [0..<length Q]"
    and sf: "sf \<Longrightarrow> p = r \<and> length Q = length U"
    and hits: "\<And>i. i < length Q \<Longrightarrow> hits R i cs = filter (hit R i) [0..<length U]"
    and n: "n = length Q"
  shows "result_ok M Q U rng sf
    (None,
     scatter p (\<lambda>i. map (\<lambda>j. r ! (resN R cs n ! i ! j)) [0..<length (resD R cs n ! i)]) n
       (replicate n []),
     scatter p (\<lambda>i. resD R cs n ! i) n (replicate n []))"
proof -
  let ?N = "scatter p (\<lambda>i. map (\<lambda>j. r ! (resN R cs n ! i ! j)) [0..<length (resD R cs n ! i)]) n
       (replicate n [])"
  let ?D = "scatter p (\<lambda>i. resD R cs n ! i) n (replicate n [])"
  have dp: "distinct p" and lp: "n \<le> length p"
    using p n by (simp_all add: perm_record_def)
  have pn: "\<forall>i<n. p ! i < n"
    using p n by (simp add: perm_record_nth)
  have "mset (?N ! q) = mset (in_range M Q U rng sf q)
      \<and> ?D ! q = map (\<lambda>j. M (Q ! q) (U ! j)) (?N ! q)" if q: "q < length Q" for q
  proof -
    obtain i where i: "i < n" and pi: "p ! i = q"
      using perm_record_onto [OF p q] n by auto
    have "?N ! (p ! i)
        = map (\<lambda>j. r ! (resN R cs n ! i ! j)) [0..<length (resD R cs n ! i)]"
      by (rule scatter_nth [OF dp lp _ i]) (simp add: pn)
    also have "\<dots> = map (\<lambda>j. r ! (hits R i cs ! j)) [0..<length (hits R i cs)]"
      using i by (simp add: nth_resN nth_resD)
    also have "\<dots> = map ((!) r) (hits R i cs)"
      by (rule map_nth_comp)
    finally have Nq: "?N ! q = map ((!) r) (hits R i cs)"
      by (simp add: pi)
    have "?D ! (p ! i) = resD R cs n ! i"
      by (rule scatter_nth [OF dp lp _ i]) (simp add: pn)
    then have Dq: "?D ! q = map (dist R i) (hits R i cs)"
      using i by (simp add: pi nth_resD)
    have Xi: "X ! i = Q ! q"
      using i n by (simp add: X pi)
    have L: "hits R i cs
        = filter (\<lambda>j. \<not> (sf \<and> i = j) \<and> Contains rng (M (Q ! q) (P ! j))) [0..<length U]"
      using hits [of i] i n by (simp add: R hit_abs Xi)
    have Pj: "\<And>j. j < length U \<Longrightarrow> P ! j = U ! (r ! j)"
      by (simp add: P)
    have sfq: "sf \<Longrightarrow> i < length U \<and> q = r ! i"
      using sf i n pi by auto
    have e1: "mset (map ((!) r) (hits R i cs))
        = mset (filter (\<lambda>j. \<not> (sf \<and> q = j) \<and> Contains rng (M (Q ! q) (U ! j)))
                  [0..<length U])"
      by (rule entry_ok(1) [where sf = sf and i = i and P = P and m = "length U"])
        (simp_all add: r Pj L sfq)
    have e2: "map (\<lambda>j. M (Q ! q) (P ! j)) (hits R i cs)
        = map (\<lambda>j. M (Q ! q) (U ! j)) (map ((!) r) (hits R i cs))"
      by (rule entry_ok(2) [where sf = sf and i = i and q = q and rng = rng
            and m = "length U" and r = r])
        (simp_all add: r Pj L sfq)
    have d: "dist R i = (\<lambda>j. M (Q ! q) (P ! j))"
      by (simp add: R dist_abs Xi)
    show ?thesis
      using e1 e2 by (simp add: Nq Dq in_range_def d)
  qed
  then show ?thesis
    using n by (simp add: result_ok_def list_all_iff)
qed

section \<open>Search with a query set returns the in-range pairs\<close>

lemma Search_set_ok_naive:
  assumes nv: "naive rs" and inv: "rs_inv K h rs U"
  shows "result_ok (metric rs) Q U rng False (Search_set K h rs Q rng nb0 ds0)"
proof -
  have own: "\<not> treeOwner rs" and PU: "referenceSet rs = U"
    using nv inv by (simp_all add: rs_inv_def)
  show ?thesis
    unfolding Search_set_naive [OF nv own] Let_def PU
    by (rule result_ok_plain [OF refl]) (simp add: hits_product)
qed

lemma Search_set_ok_single:
  assumes nv: "\<not> naive rs" and sm: "singleMode rs"
    and inv: "rs_inv K h rs U" and con: "set_contract K h rs Q"
  shows "result_ok (metric rs) Q U rng False (Search_set K h rs Q rng nb0 ds0)"
proof -
  obtain t where t: "deref h (referenceTree rs) = Some t"
    using nv inv by (auto simp: rs_inv_def split: option.splits)
  have shape: "tree_shape (Root t) (length U)"
    and m: "if treeOwner rs \<and> RearrangesDataset K
         then perm_record (oldFromNewReferences rs) (length U)
              \<and> referenceSet rs = map (\<lambda>i. U ! (oldFromNewReferences rs ! i)) [0..<length U]
         else referenceSet rs = U"
    using nv inv t by (simp_all add: rs_inv_def)
  have pb: "list_all (\<lambda>q. point_bounds K (metric rs) q (referenceSet rs) (Root t)) Q"
    using nv sm con t by (simp add: set_contract_def)
  define R where "R = \<lparr>rReferenceSet = referenceSet rs, rQuerySet = Q, rRange = rng,
      rMetric = metric rs, rSameSet = False\<rparr>"
  define cs where "cs = concat (map (\<lambda>i. map (Pair i) (single_calls K R i (Root t)))
      [0..<length Q])"
  have hits: "hits R q cs = filter (hit R q) [0..<length U]" if q: "q < length Q" for q
  proof -
    have "hits R q cs = filter (hit R q) (single_calls K R q (Root t))"
      using q by (simp add: cs_def hits_rows)
    also have "\<dots> = filter (hit R q) (span (Root t))"
      using shape pb q by (intro single_hits) (simp_all add: tree_shape_wf list_all_length R_def)
    also have "span (Root t) = [0..<length U]"
      using shape by (rule tree_shape_span)
    finally show ?thesis .
  qed
  show ?thesis
  proof (cases "RearrangesDataset K \<and> treeOwner rs")
    case True
    then have r: "perm_record (oldFromNewReferences rs) (length U)"
      and P: "referenceSet rs = map (\<lambda>i. U ! (oldFromNewReferences rs ! i)) [0..<length U]"
      using m by simp_all
    have "Search_set K h rs Q rng nb0 ds0 =
        (None, map (\<lambda>i. map ((!) (oldFromNewReferences rs)) (resN R cs (length Q) ! i))
                 [0..<length Q], resD R cs (length Q))"
      using True by (simp add: Search_set_single_mapped [OF nv sm t] Let_def R_def cs_def)
    then show ?thesis
      using result_ok_references [OF R_def r P hits] by simp
  next
    case False
    then have PU: "referenceSet rs = U"
      using m by auto
    have "Search_set K h rs Q rng nb0 ds0 = (None, resN R cs (length Q), resD R cs (length Q))"
      using False by (simp add: Search_set_single_plain [OF nv sm t] Let_def R_def cs_def)
    then show ?thesis
      using result_ok_plain [OF R_def [unfolded PU] hits] by simp
  qed
qed

lemma Search_set_ok_dual:
  assumes nv: "\<not> naive rs" and sm: "\<not> singleMode rs"
    and inv: "rs_inv K h rs U" and con: "set_contract K h rs Q"
    and own: "RearrangesDataset K \<Longrightarrow> treeOwner rs"
  shows "result_ok (metric rs) Q U rng False (Search_set K h rs Q rng nb0 ds0)"
proof -
  obtain t where t: "deref h (referenceTree rs) = Some t"
    using nv inv by (auto simp: rs_inv_def split: option.splits)
  have shape: "tree_shape (Root t) (length U)"
    and m: "if treeOwner rs \<and> RearrangesDataset K
         then perm_record (oldFromNewReferences rs) (length U)
              \<and> referenceSet rs = map (\<lambda>i. U ! (oldFromNewReferences rs ! i)) [0..<length U]
         else referenceSet rs = U"
    using nv inv t by (simp_all add: rs_inv_def)
  obtain qt p where B: "BuildTree K Q [] = (qt, p)"
    by (cases "BuildTree K Q []")
  have bq: "built_ok K Q"
    and nbd: "node_bounds K (metric rs) (Dataset qt) (referenceSet rs) (Root qt) (Root t)"
    using nv sm con t by (simp_all add: set_contract_def B)
  have qshape: "tree_shape (Root qt) (length Q)"
    using bq by (simp add: built_ok_def B)
  define R where "R = \<lparr>rReferenceSet = referenceSet rs, rQuerySet = Dataset qt, rRange = rng,
      rMetric = metric rs, rSameSet = False\<rparr>"
  define cs where "cs = dual_calls K R (Root qt) (Root t)"
  have hits: "hits R q cs = filter (hit R q) [0..<length U]" if q: "q < length Q" for q
  proof -
    have "hits R q cs =
        (if q \<in> set (span (Root qt)) then filter (hit R q) (span (Root t)) else [])"
      unfolding cs_def using qshape shape nbd
      by (intro dual_hits) (simp_all add: tree_shape_wf R_def)
    then show ?thesis
      using q by (simp add: tree_shape_span [OF qshape] tree_shape_span [OF shape])
  qed
  show ?thesis
  proof (cases "RearrangesDataset K")
    case False
    then have PU: "referenceSet rs = U"
      using m by auto
    have qt: "qt = NewPlain K Q" and QD: "Dataset qt = Q"
      using False B bq by (auto simp: BuildTree_def built_ok_def)
    have "Search_set K h rs Q rng nb0 ds0 = (None, resN R cs (length Q), resD R cs (length Q))"
      using False by (simp add: Search_set_dual_plain [OF nv sm t] Let_def R_def cs_def qt)
    then show ?thesis
      using result_ok_plain [OF R_def [unfolded PU QD] hits] by simp
  next
    case True
    then have o: "treeOwner rs"
      by (rule own)
    have r: "perm_record (oldFromNewReferences rs) (length U)"
      and P: "referenceSet rs = map (\<lambda>i. U ! (oldFromNewReferences rs ! i)) [0..<length U]"
      using m True o by simp_all
    have NM: "NewMapped K Q = (qt, p)"
      using True B by (simp add: BuildTree_def)
    have p: "perm_record p (length Q)"
      and X: "Dataset qt = map (\<lambda>i. Q ! (p ! i)) [0..<length Q]"
      using True B bq by (simp_all add: built_ok_def)
    have pn: "\<forall>i<length Q. p ! i < length Q"
      using p by (simp add: perm_record_nth)
    have "Search_set K h rs Q rng nb0 ds0 =
        (None,
         scatter p (\<lambda>i. map (\<lambda>j. oldFromNewReferences rs ! (resN R cs (length Q) ! i ! j))
                             [0..<length (resD R cs (length Q) ! i)]) (length Q)
           (replicate (length Q) []),
         scatter p (\<lambda>i. resD R cs (length Q) ! i) (length Q) (replicate (length Q) []))"
      by (simp add: Search_set_dual_mapped [OF nv sm t True o NM pn] Let_def R_def cs_def)
    then show ?thesis
      using result_ok_both [OF R_def p r P X _ hits refl] by simp
  qed
qed

theorem Search_set_ok:
  assumes inv: "rs_inv K h rs U" and con: "set_contract K h rs Q"
    and own: "RearrangesDataset K \<and> \<not> naive rs \<and> \<not> singleMode rs \<longrightarrow> treeOwner rs"
  shows "result_ok (metric rs) Q U rng False (Search_set K h rs Q rng nb0 ds0)"
proof (cases "naive rs")
  case True
  then show ?thesis
    using inv by (rule Search_set_ok_naive)
next
  case nv: False
  show ?thesis
  proof (cases "singleMode rs")
    case True
    then show ?thesis
      using nv inv con by (intro Search_set_ok_single)
  next
    case False
    then show ?thesis
      using nv inv con own by (intro Search_set_ok_dual) simp_all
  qed
qed

lemma RangeSearch_set_inv:
  assumes c: "RangeSearch_set K h refs nv sm M = (rs, h1)"
    and b: "nv \<or> built_ok K refs"
  shows "rs_inv K h1 rs refs" and "metric rs = M" and "naive rs = nv"
    and "singleMode rs = (\<not> nv \<and> sm)" and "treeOwner rs = (\<not> nv)"
proof -
  show "metric rs = M" and "naive rs = nv" and "singleMode rs = (\<not> nv \<and> sm)"
    and "treeOwner rs = (\<not> nv)"
    using c by (auto simp: RangeSearch_set_def new_tree_def split: if_splits prod.splits)
  show "rs_inv K h1 rs refs"
  proof (cases nv)
    case True
    then show ?thesis
      using c by (auto simp: RangeSearch_set_def rs_inv_def)
  next
    case False
    obtain t p where B: "BuildTree K refs [] = (t, p)"
      by (cases "BuildTree K refs []")
    have rs: "rs = \<lparr>oldFromNewReferences = p, referenceTree = Some (length h),
        referenceSet = Dataset t, treeOwner = True, naive = False,
        singleMode = sm, metric = M\<rparr>" and h1: "h1 = h @ [Some t]"
      using c False by (simp_all add: RangeSearch_set_def new_tree_def B)
    have "built_ok K refs"
      using b False by simp
    then show ?thesis
      by (auto simp: rs_inv_def rs h1 deref_new_tree built_ok_def B split: if_splits)
  qed
qed

lemma result_ok_pairs:
  assumes "result_ok M Q U rng False res" and "q < length Q"
  shows "fst res = None"
    and "pairs_of res q
      = (\<lambda>j. (j, M (Q ! q) (U ! j))) ` {j. j < length U \<and> Contains rng (M (Q ! q) (U ! j))}"
proof -
  obtain st nb ds where res: "res = (st, nb, ds)"
    by (cases res)
  have ms: "mset (nb ! q) = mset (in_range M Q U rng False q)"
    and ds: "ds ! q = map (\<lambda>j. M (Q ! q) (U ! j)) (nb ! q)" and st: "st = None"
    using assms by (simp_all add: result_ok_def res list_all_iff)
  show "fst res = None"
    by (simp add: res st)
  have "set (nb ! q) = set (in_range M Q U rng False q)"
    using ms by (rule mset_eq_setD)
  then have s: "set (nb ! q) = {j. j < length U \<and> Contains rng (M (Q ! q) (U ! j))}"
    by (auto simp: in_range_def)
  have "zip (nb ! q) (ds ! q) = map (\<lambda>j. (j, M (Q ! q) (U ! j))) (nb ! q)"
    by (simp add: ds zip_map2 zip_same_conv_map)
  then show "pairs_of res q
      = (\<lambda>j. (j, M (Q ! q) (U ! j))) ` {j. j < length U \<and> Contains rng (M (Q ! q) (U ! j))}"
    by (simp add: pairs_of_def res s [symmetric])
qed

text \<open>
  Objects that own their tree.  Three objects built from the same reference set,
  one naive, one single-tree and one dual-tree, with a tree type that keeps its
  contract: each Search with a query set returns, and for every query point the
  three results hold the same set of pairs (reference index, distance), namely
  the pairs of the reference points whose distance is in the range.  An object
  that borrows its tree is not covered: see the dual-tree search on a borrowed
  tree below.
\<close>

theorem owned_tree_strategies_agree:
  assumes "RangeSearch_set K h refs True sm M = (rsN, hN)"
    and "RangeSearch_set K h refs False True M = (rsS, hS)"
    and "RangeSearch_set K h refs False False M = (rsD, hD)"
    and "built_ok K refs"
    and "set_contract K hS rsS Q" and "set_contract K hD rsD Q"
    and "q < length Q"
  shows "fst (Search_set K hN rsN Q rng nbN dsN) = None
    \<and> fst (Search_set K hS rsS Q rng nbS dsS) = None
    \<and> fst (Search_set K hD rsD Q rng nbD dsD) = None
    \<and> pairs_of (Search_set K hS rsS Q rng nbS dsS) q
        = pairs_of (Search_set K hN rsN Q rng nbN dsN) q
    \<and> pairs_of (Search_set K hD rsD Q rng nbD dsD) q
        = pairs_of (Search_set K hN rsN Q rng nbN dsN) q
    \<and> pairs_of (Search_set K hN rsN Q rng nbN dsN) q
        = (\<lambda>j. (j, M (Q ! q) (refs ! j)))
            ` {j. j < length refs \<and> Contains rng (M (Q ! q) (refs ! j))}"
proof -
  have N: "result_ok M Q refs rng False (Search_set K hN rsN Q rng nbN dsN)"
    using RangeSearch_set_inv [OF assms(1)]
      Search_set_ok [of K hN rsN refs Q rng nbN dsN]
    by (simp add: set_contract_def)
  have S: "result_ok M Q refs rng False (Search_set K hS rsS Q rng nbS dsS)"
    using RangeSearch_set_inv [OF assms(2)] assms(4,5)
      Search_set_ok [of K hS rsS refs Q rng nbS dsS]
    by simp
  have D: "result_ok M Q refs rng False (Search_set K hD rsD Q rng nbD dsD)"
    using RangeSearch_set_inv [OF assms(3)] assms(4,6)
      Search_set_ok [of K hD rsD refs Q rng nbD dsD]
    by simp
  show ?thesis
    using result_ok_pairs [OF N assms(7)] result_ok_pairs [OF S assms(7)]
      result_ok_pairs [OF D assms(7)]
    by simp
qed

theorem owned_tree_strategies_agree_witness:
  "pairs_of (Search_set (lineKit True)
       (snd (RangeSearch_set (lineKit True) [] [0, 3, 4] False False lineMetric))
       (fst (RangeSearch_set (lineKit True) [] [0, 3, 4] False False lineMetric))
       [0, 10] \<lparr>Lo = 1, Hi = 5\<rparr> [] []) 0
   = pairs_of (Search_set (lineKit True)
       (snd (RangeSearch_set (lineKit True) [] [0, 3, 4] True False lineMetric))
       (fst (RangeSearch_set (lineKit True) [] [0, 3, 4] True False lineMetric))
       [0, 10] \<lparr>Lo = 1, Hi = 5\<rparr> [] []) 0
   \<and> pairs_of (Search_set (lineKit True)
       (snd (RangeSearch_set (lineKit True) [] [0, 3, 4] False True lineMetric))
       (fst (RangeSearch_set (lineKit True) [] [0, 3, 4] False True lineMetric))
       [0, 10] \<lparr>Lo = 1, Hi = 5\<rparr> [] []) 0
   = pairs_of (Search_set (lineKit True)
       (snd (RangeSearch_set (lineKit True) [] [0, 3, 4] True False lineMetric))
       (fst (RangeSearch_set (lineKit True) [] [0, 3, 4] True False lineMetric))
       [0, 10] \<lparr>Lo = 1, Hi = 5\<rparr> [] []) 0"
proof -
  have b: "built_ok (lineKit True) [0, 3, 4]"
    by code_simp
  have s: "set_contract (lineKit True)
       (snd (RangeSearch_set (lineKit True) [] [0, 3, 4] False True lineMetric))
       (fst (RangeSearch_set (lineKit True) [] [0, 3, 4] False True lineMetric)) [0, 10]"
    by code_simp
  have d: "set_contract (lineKit True)
       (snd (RangeSearch_set (lineKit True) [] [0, 3, 4] False False lineMetric))
       (fst (RangeSearch_set (lineKit True) [] [0, 3, 4] False False lineMetric)) [0, 10]"
    by code_simp
  have q: "(0::nat) < length [0, 10 :: int]"
    by simp
  show ?thesis
    using owned_tree_strategies_agree [where sm = False and rng = "\<lparr>Lo = 1, Hi = 5\<rparr>"
        and nbN = "[]" and dsN = "[]" and nbS = "[]" and dsS = "[]" and nbD = "[]" and dsD = "[]",
        OF prod.collapse [symmetric] prod.collapse [symmetric] prod.collapse [symmetric] b s d q]
    by simp
qed

lemma replicate_update_same: "(replicate n x)[i := x] = replicate n x"
  by (induction n arbitrary: i) (simp_all split: nat.splits)

lemma fold_MapQueries:
  "k \<le> n \<Longrightarrow>
   fold (MapQueries p Caller Temp) [0..<k]
     \<lparr>neighbors = replicate n [], distances = D, tmpNeighbors = tN, tmpDistances = tD\<rparr> =
    \<lparr>neighbors = replicate n [], distances = scatter p (\<lambda>i. tD ! i) k D,
     tmpNeighbors = tN, tmpDistances = tD\<rparr>"
proof (induction k)
  case 0
  show ?case by simp
next
  case (Suc k)
  then show ?case
    by (simp add: MapQueries_def Let_def getN_def getD_def scatter_Suc replicate_update_same)
qed

text \<open>
  C2.  What the code does on the path the claim is about: an object that borrows
  its reference tree (\<open>treeOwner\<close> false), dual-tree mode, a tree type that
  rearranges, Search with a query set.  \<^verbatim>\<open>neighborPtr\<close> still points to the
  caller's \<open>neighbors\<close>, which line 214 clears after the traversal has filled it;
  the loop of lines 219 to 225 then copies empty vectors, and line 228 deletes the
  caller's buffer.  The call ends in \<open>InvalidDelete\<close> with every neighbour list
  empty, whatever the traversal found.
\<close>

theorem borrowed_tree_dual_search_loses_neighbors:
  assumes "\<not> naive rs" and "\<not> singleMode rs" and "deref h (referenceTree rs) = Some t"
    and "RearrangesDataset K" and "\<not> treeOwner rs"
  shows "fst (Search_set K h rs Q rng nb0 ds0) = Some InvalidDelete
    \<and> fst (snd (Search_set K h rs Q rng nb0 ds0)) = replicate (length Q) []"
  using assms
  by (simp add: Search_set_def Traverse_set_def Remap_set_def Let_def store_defs
      DualTraverse_calls fold_MapQueries split: prod.splits)

theorem borrowed_tree_dual_search_loses_neighbors_witness:
  "RangeSearch_tree borrowedHeap (Some 0) False lineMetric = Inr borrower
   \<and> Search_set (lineKit True) borrowedHeap borrower [0, 10] \<lparr>Lo = 0, Hi = 5\<rparr> [] []
       = (Some InvalidDelete, [[], []], [[4, 3, 0], []])
   \<and> Search_set (lineKit False) borrowedHeap borrower [0, 10] \<lparr>Lo = 0, Hi = 5\<rparr> [] []
       = (None, [[0, 1, 2], []], [[4, 3, 0], []])"
proof -
  have c: "RangeSearch_tree borrowedHeap (Some 0) False lineMetric = Inr borrower"
    by (simp add: RangeSearch_tree_def borrowedHeap_def borrower_def deref_def lineTree_def)
  have a: "\<not> naive borrower" "\<not> singleMode borrower" "\<not> treeOwner borrower"
    "deref borrowedHeap (referenceTree borrower) = Some (lineTree [4, 3, 0])"
    "RearrangesDataset (lineKit True)"
    by (simp_all add: borrower_def borrowedHeap_def deref_def lineKit_def)
  have ds: "snd (snd (Search_set (lineKit True) borrowedHeap borrower [0, 10]
      \<lparr>Lo = 0, Hi = 5\<rparr> [] [])) = [[4, 3, 0], []]"
    by code_simp
  have plain: "Search_set (lineKit False) borrowedHeap borrower [0, 10] \<lparr>Lo = 0, Hi = 5\<rparr> [] []
       = (None, [[0, 1, 2], []], [[4, 3, 0], []])"
    by code_simp
  have "Search_set (lineKit True) borrowedHeap borrower [0, 10] \<lparr>Lo = 0, Hi = 5\<rparr> [] []
       = (Some InvalidDelete, [[], []], [[4, 3, 0], []])"
    using borrowed_tree_dual_search_loses_neighbors [OF a(1,2,4,5,3),
        of "[0, 10]" "\<lparr>Lo = 0, Hi = 5\<rparr>" "[]" "[]"] ds
    by (cases "Search_set (lineKit True) borrowedHeap borrower [0, 10] \<lparr>Lo = 0, Hi = 5\<rparr> [] []")
      (simp add: numeral_2_eq_2)
  then show ?thesis
    using c plain by simp
qed

section \<open>Soundness without the bounds\<close>

lemma hits_hit: "j \<in> set (hits R q cs) \<Longrightarrow> hit R q j \<and> (q, j) \<in> set cs"
  by (auto simp: hits_def)

lemma single_calls_span:
  "wf_node nd \<Longrightarrow> set (single_calls K R i nd) \<subseteq> set (span nd)"
proof (induction nd)
  case (LeafNode b s c)
  then show ?case by simp
next
  case (InnerNode b s c l r)
  have "[s..<s + c] = span l @ span r"
    using InnerNode.prems by (rule span_children)
  then show ?case
    using InnerNode by (auto simp del: set_upt)
qed

lemma dual_calls_span:
  "wf_node qn \<Longrightarrow> wf_node rn \<Longrightarrow>
   set (dual_calls K R qn rn) \<subseteq> set (span qn) \<times> set (span rn)"
proof (induction K R qn rn rule: dual_calls.induct)
  case (1 K R qb qs qc rb rs rc)
  then show ?case by auto
next
  case (2 K R qb qs qc rb rs rc rl rr)
  have "[rs..<rs + rc] = span rl @ span rr"
    using "2.prems"(2) by (rule span_children)
  then show ?case
    using 2 by (auto simp del: set_upt)
next
  case (3 K R qb qs qc ql qr rb rs rc)
  have "[qs..<qs + qc] = span ql @ span qr"
    using "3.prems"(1) by (rule span_children)
  then show ?case
    using 3 by (auto simp del: set_upt)
next
  case (4 K R qb qs qc ql qr rb rs rc rl rr)
  have "[qs..<qs + qc] = span ql @ span qr" and "[rs..<rs + rc] = span rl @ span rr"
    using "4.prems" by (auto intro: span_children)
  then show ?case
    using 4 by (auto simp del: set_upt)
qed

lemma entry_sound:
  assumes r: "perm_record r m" and U: "length U = m"
    and P: "\<And>j. j < m \<Longrightarrow> P ! j = U ! (r ! j)"
    and sf: "sf \<Longrightarrow> i < m \<and> q = r ! i"
    and L: "\<And>j. j \<in> set L \<Longrightarrow> j < m \<and> \<not> (sf \<and> i = j) \<and> Contains rng (M x (P ! j))"
  shows "list_all (\<lambda>j. j < length U \<and> \<not> (sf \<and> q = j) \<and> Contains rng (M x (U ! j)))
           (map ((!) r) L)"
    and "map (\<lambda>j. M x (P ! j)) L = map (\<lambda>j. M x (U ! j)) (map ((!) r) L)"
proof -
  have "r ! j < length U \<and> \<not> (sf \<and> q = r ! j) \<and> Contains rng (M x (U ! (r ! j)))"
    if "j \<in> set L" for j
    using L [OF that] P [of j] sf perm_record_inj [OF r, of i j] perm_record_nth [OF r, of j] U
    by auto
  then show "list_all (\<lambda>j. j < length U \<and> \<not> (sf \<and> q = j) \<and> Contains rng (M x (U ! j)))
           (map ((!) r) L)"
    by (simp add: list_all_iff)
  have "M x (P ! j) = M x (U ! (r ! j))" if "j \<in> set L" for j
    using L [OF that] P by simp
  then show "map (\<lambda>j. M x (P ! j)) L = map (\<lambda>j. M x (U ! j)) (map ((!) r) L)"
    by simp
qed

lemma sound_plain:
  assumes R: "R = \<lparr>rReferenceSet = U, rQuerySet = Q, rRange = rng, rMetric = M, rSameSet = sf\<rparr>"
    and rg: "\<And>q j. q < length Q \<Longrightarrow> j \<in> set (hits R q cs) \<Longrightarrow> j < length U"
  shows "sound_ok M Q U rng sf (None, resN R cs (length Q), resD R cs (length Q))"
proof -
  have "j < length U \<and> \<not> (sf \<and> q = j) \<and> Contains rng (M (Q ! q) (U ! j))"
    if "q < length Q" and "j \<in> set (hits R q cs)" for q j
    using rg [OF that] hits_hit [OF that(2)] by (simp add: R hit_def dist_def)
  then show ?thesis
    by (simp add: sound_ok_def list_all_iff nth_resN nth_resD R dist_abs)
qed

lemma sound_references:
  assumes R: "R = \<lparr>rReferenceSet = P, rQuerySet = Q, rRange = rng, rMetric = M,
      rSameSet = False\<rparr>"
    and r: "perm_record r (length U)"
    and P: "P = map (\<lambda>i. U ! (r ! i)) [0..<length U]"
    and rg: "\<And>q j. q < length Q \<Longrightarrow> j \<in> set (hits R q cs) \<Longrightarrow> j < length U"
  shows "sound_ok M Q U rng False
    (None, map (\<lambda>i. map ((!) r) (resN R cs (length Q) ! i)) [0..<length Q],
     resD R cs (length Q))"
proof -
  have "list_all (\<lambda>j. j < length U \<and> \<not> (False \<and> q = j) \<and> Contains rng (M (Q ! q) (U ! j)))
          (map ((!) r) (hits R q cs))
      \<and> map (dist R q) (hits R q cs) = map (\<lambda>j. M (Q ! q) (U ! j)) (map ((!) r) (hits R q cs))"
    if q: "q < length Q" for q
  proof -
    have L: "j < length U \<and> \<not> (False \<and> q = j) \<and> Contains rng (M (Q ! q) (P ! j))"
      if "j \<in> set (hits R q cs)" for j
    proof -
      have "hit R q j"
        using hits_hit [OF that] by simp
      moreover have "j < length U"
        using rg [OF q that] .
      ultimately show ?thesis
        by (simp add: R hit_def dist_def)
    qed
    have Pj: "\<And>j. j < length U \<Longrightarrow> P ! j = U ! (r ! j)"
      by (simp add: P)
    have d: "dist R q = (\<lambda>j. M (Q ! q) (P ! j))"
      by (simp add: R dist_abs)
    have e1: "list_all (\<lambda>j. j < length U \<and> \<not> (False \<and> q = j)
          \<and> Contains rng (M (Q ! q) (U ! j))) (map ((!) r) (hits R q cs))"
      using entry_sound(1) [where sf = False and i = q and q = q and P = P and m = "length U"
          and r = r and U = U and L = "hits R q cs" and rng = rng and M = M and x = "Q ! q",
          OF r refl Pj _ L]
      by simp
    have e2: "map (\<lambda>j. M (Q ! q) (P ! j)) (hits R q cs)
        = map (\<lambda>j. M (Q ! q) (U ! j)) (map ((!) r) (hits R q cs))"
      using entry_sound(2) [where sf = False and i = q and q = q and P = P and m = "length U"
          and r = r and U = U and L = "hits R q cs" and rng = rng and M = M and x = "Q ! q",
          OF r refl Pj _ L]
      by simp
    show ?thesis
      using e1 e2 by (simp add: d)
  qed
  then show ?thesis
    by (simp add: sound_ok_def list_all_iff nth_resN nth_resD)
qed

lemma sound_both:
  assumes R: "R = \<lparr>rReferenceSet = P, rQuerySet = X, rRange = rng, rMetric = M,
      rSameSet = sf\<rparr>"
    and p: "perm_record p (length Q)" and r: "perm_record r (length U)"
    and P: "P = map (\<lambda>i. U ! (r ! i)) [0..<length U]"
    and X: "X = map (\<lambda>i. Q ! (p ! i)) [0..<length Q]"
    and sf: "sf \<Longrightarrow> p = r \<and> length Q = length U"
    and rg: "\<And>i j. i < length Q \<Longrightarrow> j \<in> set (hits R i cs) \<Longrightarrow> j < length U"
    and n: "n = length Q"
  shows "sound_ok M Q U rng sf
    (None,
     scatter p (\<lambda>i. map (\<lambda>j. r ! (resN R cs n ! i ! j)) [0..<length (resD R cs n ! i)]) n
       (replicate n []),
     scatter p (\<lambda>i. resD R cs n ! i) n (replicate n []))"
proof -
  let ?N = "scatter p (\<lambda>i. map (\<lambda>j. r ! (resN R cs n ! i ! j)) [0..<length (resD R cs n ! i)]) n
       (replicate n [])"
  let ?D = "scatter p (\<lambda>i. resD R cs n ! i) n (replicate n [])"
  have dp: "distinct p" and lp: "n \<le> length p"
    using p n by (simp_all add: perm_record_def)
  have pn: "\<forall>i<n. p ! i < n"
    using p n by (simp add: perm_record_nth)
  have "list_all (\<lambda>j. j < length U \<and> \<not> (sf \<and> q = j) \<and> Contains rng (M (Q ! q) (U ! j)))
          (?N ! q)
      \<and> ?D ! q = map (\<lambda>j. M (Q ! q) (U ! j)) (?N ! q)" if q: "q < length Q" for q
  proof -
    obtain i where i: "i < n" and pi: "p ! i = q"
      using perm_record_onto [OF p q] n by auto
    have "?N ! (p ! i)
        = map (\<lambda>j. r ! (resN R cs n ! i ! j)) [0..<length (resD R cs n ! i)]"
      by (rule scatter_nth [OF dp lp _ i]) (simp add: pn)
    also have "\<dots> = map (\<lambda>j. r ! (hits R i cs ! j)) [0..<length (hits R i cs)]"
      using i by (simp add: nth_resN nth_resD)
    also have "\<dots> = map ((!) r) (hits R i cs)"
      by (rule map_nth_comp)
    finally have Nq: "?N ! q = map ((!) r) (hits R i cs)"
      by (simp add: pi)
    have "?D ! (p ! i) = resD R cs n ! i"
      by (rule scatter_nth [OF dp lp _ i]) (simp add: pn)
    then have Dq: "?D ! q = map (dist R i) (hits R i cs)"
      using i by (simp add: pi nth_resD)
    have Xi: "X ! i = Q ! q"
      using i n by (simp add: X pi)
    have L: "j < length U \<and> \<not> (sf \<and> i = j) \<and> Contains rng (M (Q ! q) (P ! j))"
      if "j \<in> set (hits R i cs)" for j
    proof -
      have "hit R i j"
        using hits_hit [OF that] by simp
      moreover have "j < length U"
        using rg [OF _ that] i n by simp
      ultimately show ?thesis
        by (simp add: R hit_def dist_def Xi)
    qed
    have Pj: "\<And>j. j < length U \<Longrightarrow> P ! j = U ! (r ! j)"
      by (simp add: P)
    have sfq: "sf \<Longrightarrow> i < length U \<and> q = r ! i"
      using sf i n pi by auto
    have e1: "list_all (\<lambda>j. j < length U \<and> \<not> (sf \<and> q = j)
          \<and> Contains rng (M (Q ! q) (U ! j))) (map ((!) r) (hits R i cs))"
      using entry_sound(1) [where sf = sf and i = i and q = q and P = P and m = "length U"
          and r = r and U = U and L = "hits R i cs" and rng = rng and M = M and x = "Q ! q",
          OF r refl Pj sfq L]
      by simp
    have e2: "map (\<lambda>j. M (Q ! q) (P ! j)) (hits R i cs)
        = map (\<lambda>j. M (Q ! q) (U ! j)) (map ((!) r) (hits R i cs))"
      using entry_sound(2) [where sf = sf and i = i and q = q and P = P and m = "length U"
          and r = r and U = U and L = "hits R i cs" and rng = rng and M = M and x = "Q ! q",
          OF r refl Pj sfq L]
      by simp
    have d: "dist R i = (\<lambda>j. M (Q ! q) (P ! j))"
      by (simp add: R dist_abs Xi)
    show ?thesis
      using e1 e2 by (simp add: Nq Dq d)
  qed
  then show ?thesis
    using n by (simp add: sound_ok_def list_all_iff)
qed

lemma hits_product_range:
  "j \<in> set (hits R q (List.product is [0..<m])) \<Longrightarrow> j < m"
  using hits_hit [of j R q "List.product is [0..<m]"] by auto

lemma hits_rows_range:
  assumes "j \<in> set (hits R q (concat (map (\<lambda>i. map (Pair i) (single_calls K R i nd)) is)))"
    and "tree_shape nd m"
  shows "j < m"
proof -
  have "(q, j) \<in> set (concat (map (\<lambda>i. map (Pair i) (single_calls K R i nd)) is))"
    using hits_hit [OF assms(1)] by simp
  then have "j \<in> set (single_calls K R q nd)"
    by auto
  then have "j \<in> set (span nd)"
    using single_calls_span [of nd K R q] assms(2) by (auto simp: tree_shape_wf)
  then show ?thesis
    by (simp add: tree_shape_span [OF assms(2)])
qed

lemma hits_dual_range:
  assumes "j \<in> set (hits R q (dual_calls K R qn rn))"
    and "wf_node qn" and "tree_shape rn m"
  shows "j < m"
proof -
  have "(q, j) \<in> set (dual_calls K R qn rn)"
    using hits_hit [OF assms(1)] by simp
  then have "j \<in> set (span rn)"
    using dual_calls_span [of qn rn K R] assms(2,3) by (auto simp: tree_shape_wf)
  then show ?thesis
    by (simp add: tree_shape_span [OF assms(3)])
qed

lemma ex_resultI:
  "(\<And>a b. f a b = res) \<Longrightarrow> P res \<Longrightarrow> \<exists>res. (\<forall>a b. f a b = res) \<and> P res"
  by blast

lemma Search_set_sound_naive:
  assumes nv: "naive rs" and inv: "rs_inv K h rs U"
  shows "\<exists>res. (\<forall>nbI dsI. Search_set K h rs Q rng nbI dsI = res)
    \<and> sound_ok (metric rs) Q U rng False res"
proof -
  have own: "\<not> treeOwner rs" and PU: "referenceSet rs = U"
    using nv inv by (simp_all add: rs_inv_def)
  define R where "R = \<lparr>rReferenceSet = U, rQuerySet = Q, rRange = rng,
      rMetric = metric rs, rSameSet = False\<rparr>"
  define cs where "cs = List.product [0..<length Q] [0..<length U]"
  have eq: "Search_set K h rs Q rng nbI dsI = (None, resN R cs (length Q), resD R cs (length Q))"
    for nbI dsI
    by (simp add: Search_set_naive [OF nv own] Let_def PU R_def cs_def)
  have rg: "j < length U" if "q < length Q" and "j \<in> set (hits R q cs)" for q j
    using that(2) unfolding cs_def by (rule hits_product_range)
  have "sound_ok (metric rs) Q U rng False (None, resN R cs (length Q), resD R cs (length Q))"
    by (rule sound_plain [OF R_def rg])
  then show ?thesis
    by (rule ex_resultI [OF eq])
qed

lemma Search_set_sound_single:
  assumes nv: "\<not> naive rs" and sm: "singleMode rs" and inv: "rs_inv K h rs U"
  shows "\<exists>res. (\<forall>nbI dsI. Search_set K h rs Q rng nbI dsI = res)
    \<and> sound_ok (metric rs) Q U rng False res"
proof -
  obtain t where t: "deref h (referenceTree rs) = Some t"
    using nv inv by (auto simp: rs_inv_def split: option.splits)
  have shape: "tree_shape (Root t) (length U)"
    and m: "if treeOwner rs \<and> RearrangesDataset K
         then perm_record (oldFromNewReferences rs) (length U)
              \<and> referenceSet rs = map (\<lambda>i. U ! (oldFromNewReferences rs ! i)) [0..<length U]
         else referenceSet rs = U"
    using nv inv t by (simp_all add: rs_inv_def)
  define R where "R = \<lparr>rReferenceSet = referenceSet rs, rQuerySet = Q, rRange = rng,
      rMetric = metric rs, rSameSet = False\<rparr>"
  define cs where "cs = concat (map (\<lambda>i. map (Pair i) (single_calls K R i (Root t)))
      [0..<length Q])"
  have rg: "j < length U" if "q < length Q" and "j \<in> set (hits R q cs)" for q j
    using that(2) shape unfolding cs_def by (rule hits_rows_range)
  show ?thesis
  proof (cases "RearrangesDataset K \<and> treeOwner rs")
    case True
    then have r: "perm_record (oldFromNewReferences rs) (length U)"
      and P: "referenceSet rs = map (\<lambda>i. U ! (oldFromNewReferences rs ! i)) [0..<length U]"
      using m by simp_all
    have "Search_set K h rs Q rng nbI dsI =
        (None, map (\<lambda>i. map ((!) (oldFromNewReferences rs)) (resN R cs (length Q) ! i))
                 [0..<length Q], resD R cs (length Q))" for nbI dsI
      using True by (simp add: Search_set_single_mapped [OF nv sm t] Let_def R_def cs_def)
    then show ?thesis
      by (rule ex_resultI) (rule sound_references [OF R_def r P rg])
  next
    case False
    then have PU: "referenceSet rs = U"
      using m by auto
    have "Search_set K h rs Q rng nbI dsI = (None, resN R cs (length Q), resD R cs (length Q))"
      for nbI dsI
      using False by (simp add: Search_set_single_plain [OF nv sm t] Let_def R_def cs_def)
    then show ?thesis
      by (rule ex_resultI) (rule sound_plain [OF R_def [unfolded PU] rg])
  qed
qed

lemma Search_set_sound_dual:
  assumes nv: "\<not> naive rs" and sm: "\<not> singleMode rs"
    and inv: "rs_inv K h rs U" and bq: "built_ok K Q"
    and own: "RearrangesDataset K \<Longrightarrow> treeOwner rs"
  shows "\<exists>res. (\<forall>nbI dsI. Search_set K h rs Q rng nbI dsI = res)
    \<and> sound_ok (metric rs) Q U rng False res"
proof -
  obtain t where t: "deref h (referenceTree rs) = Some t"
    using nv inv by (auto simp: rs_inv_def split: option.splits)
  have shape: "tree_shape (Root t) (length U)"
    and m: "if treeOwner rs \<and> RearrangesDataset K
         then perm_record (oldFromNewReferences rs) (length U)
              \<and> referenceSet rs = map (\<lambda>i. U ! (oldFromNewReferences rs ! i)) [0..<length U]
         else referenceSet rs = U"
    using nv inv t by (simp_all add: rs_inv_def)
  obtain qt p where B: "BuildTree K Q [] = (qt, p)"
    by (cases "BuildTree K Q []")
  have qshape: "tree_shape (Root qt) (length Q)"
    using bq by (simp add: built_ok_def B)
  define R where "R = \<lparr>rReferenceSet = referenceSet rs, rQuerySet = Dataset qt, rRange = rng,
      rMetric = metric rs, rSameSet = False\<rparr>"
  define cs where "cs = dual_calls K R (Root qt) (Root t)"
  have rg: "j < length U" if "q < length Q" and "j \<in> set (hits R q cs)" for q j
    using that(2) tree_shape_wf [OF qshape] shape unfolding cs_def by (rule hits_dual_range)
  show ?thesis
  proof (cases "RearrangesDataset K")
    case False
    then have PU: "referenceSet rs = U"
      using m by auto
    have qt: "qt = NewPlain K Q" and QD: "Dataset qt = Q"
      using False B bq by (auto simp: BuildTree_def built_ok_def)
    have "Search_set K h rs Q rng nbI dsI = (None, resN R cs (length Q), resD R cs (length Q))"
      for nbI dsI
      using False by (simp add: Search_set_dual_plain [OF nv sm t] Let_def R_def cs_def qt)
    then show ?thesis
      by (rule ex_resultI) (rule sound_plain [OF R_def [unfolded PU QD] rg])
  next
    case True
    then have o: "treeOwner rs"
      by (rule own)
    have r: "perm_record (oldFromNewReferences rs) (length U)"
      and P: "referenceSet rs = map (\<lambda>i. U ! (oldFromNewReferences rs ! i)) [0..<length U]"
      using m True o by simp_all
    have NM: "NewMapped K Q = (qt, p)"
      using True B by (simp add: BuildTree_def)
    have p: "perm_record p (length Q)"
      and X: "Dataset qt = map (\<lambda>i. Q ! (p ! i)) [0..<length Q]"
      using True B bq by (simp_all add: built_ok_def)
    have pn: "\<forall>i<length Q. p ! i < length Q"
      using p by (simp add: perm_record_nth)
    have "Search_set K h rs Q rng nbI dsI =
        (None,
         scatter p (\<lambda>i. map (\<lambda>j. oldFromNewReferences rs ! (resN R cs (length Q) ! i ! j))
                             [0..<length (resD R cs (length Q) ! i)]) (length Q)
           (replicate (length Q) []),
         scatter p (\<lambda>i. resD R cs (length Q) ! i) (length Q) (replicate (length Q) []))"
      for nbI dsI
      by (simp add: Search_set_dual_mapped [OF nv sm t True o NM pn] Let_def R_def cs_def)
    then show ?thesis
      by (rule ex_resultI) (rule sound_both [OF R_def p r P X _ rg refl], simp)
  qed
qed

lemma Search_set_sound:
  assumes inv: "rs_inv K h rs U" and sh: "set_shape K rs Q"
    and own: "RearrangesDataset K \<and> \<not> naive rs \<and> \<not> singleMode rs \<longrightarrow> treeOwner rs"
  shows "\<exists>res. (\<forall>nbI dsI. Search_set K h rs Q rng nbI dsI = res)
    \<and> sound_ok (metric rs) Q U rng False res"
proof (cases "naive rs")
  case True
  then show ?thesis
    using inv by (rule Search_set_sound_naive)
next
  case nv: False
  show ?thesis
  proof (cases "singleMode rs")
    case True
    then show ?thesis
      using nv inv by (intro Search_set_sound_single)
  next
    case False
    then show ?thesis
      using nv inv sh own by (intro Search_set_sound_dual) (simp_all add: set_shape_def)
  qed
qed

section \<open>Search with a query tree and Search without a query set\<close>

lemma Search_tree_plain:
  assumes "deref h qtp = Some qt" and "\<not> naive rs" and "\<not> singleMode rs"
    and "deref h (referenceTree rs) = Some t"
    and "\<not> (treeOwner rs \<and> RearrangesDataset K)"
  shows "Search_tree K h rs qtp rng nb0 ds0 =
    (let R = \<lparr>rReferenceSet = referenceSet rs, rQuerySet = Dataset qt, rRange = rng,
              rMetric = metric rs, rSameSet = False\<rparr>;
         cs = dual_calls K R (Root qt) (Root t);
         n = length (Dataset qt)
     in (None, resN R cs n, resD R cs n))"
  using assms
  by (auto simp add: Search_tree_def Let_def store_defs DualTraverse_calls run_calls_fresh)

lemma Search_tree_mapped:
  assumes "deref h qtp = Some qt" and "\<not> naive rs" and "\<not> singleMode rs"
    and "deref h (referenceTree rs) = Some t"
    and "treeOwner rs" and "RearrangesDataset K"
  shows "Search_tree K h rs qtp rng nb0 ds0 =
    (let R = \<lparr>rReferenceSet = referenceSet rs, rQuerySet = Dataset qt, rRange = rng,
              rMetric = metric rs, rSameSet = False\<rparr>;
         cs = dual_calls K R (Root qt) (Root t);
         n = length (Dataset qt)
     in (None, map (\<lambda>i. map ((!) (oldFromNewReferences rs)) (resN R cs n ! i)) [0..<n],
         resD R cs n))"
  using assms
  by (simp add: Search_tree_def Let_def store_defs DualTraverse_calls run_calls_fresh
      fold_MapReferences)

lemma Search_self_naive:
  assumes "naive rs" and "\<not> treeOwner rs"
  shows "Search_self K h rs rng nb0 ds0 =
    (let R = \<lparr>rReferenceSet = referenceSet rs, rQuerySet = referenceSet rs, rRange = rng,
              rMetric = metric rs, rSameSet = True\<rparr>;
         n = length (referenceSet rs);
         cs = List.product [0..<n] [0..<n]
     in (None, resN R cs n, resD R cs n))"
  using assms
  by (simp add: Search_self_def Traverse_self_def Let_def store_defs NaiveLoop_calls
      run_calls_fresh)

lemma Search_self_plain:
  assumes "\<not> naive rs" and "deref h (referenceTree rs) = Some t"
    and "\<not> (treeOwner rs \<and> RearrangesDataset K)"
  shows "Search_self K h rs rng nb0 ds0 =
    (let R = \<lparr>rReferenceSet = referenceSet rs, rQuerySet = referenceSet rs, rRange = rng,
              rMetric = metric rs, rSameSet = True\<rparr>;
         n = length (referenceSet rs);
         cs = (if singleMode rs
               then concat (map (\<lambda>i. map (Pair i) (single_calls K R i (Root t))) [0..<n])
               else dual_calls K R (Root t) (Root t))
     in (None, resN R cs n, resD R cs n))"
  using assms
  by (auto simp add: Search_self_def Traverse_self_def Let_def store_defs SingleLoop_calls
      DualTraverse_calls run_calls_fresh)

lemma Search_self_mapped:
  assumes "\<not> naive rs" and "deref h (referenceTree rs) = Some t"
    and "treeOwner rs" and "RearrangesDataset K"
    and "\<forall>i<length (referenceSet rs). oldFromNewReferences rs ! i < length (referenceSet rs)"
  shows "Search_self K h rs rng nb0 ds0 =
    (let R = \<lparr>rReferenceSet = referenceSet rs, rQuerySet = referenceSet rs, rRange = rng,
              rMetric = metric rs, rSameSet = True\<rparr>;
         n = length (referenceSet rs);
         cs = (if singleMode rs
               then concat (map (\<lambda>i. map (Pair i) (single_calls K R i (Root t))) [0..<n])
               else dual_calls K R (Root t) (Root t))
     in (None,
         scatter (oldFromNewReferences rs)
           (\<lambda>i. map (\<lambda>j. oldFromNewReferences rs ! (resN R cs n ! i ! j))
                   [0..<length (resD R cs n ! i)]) n (replicate n []),
         scatter (oldFromNewReferences rs) (\<lambda>i. resD R cs n ! i) n (replicate n [])))"
  using assms
  by (simp add: Search_self_def Traverse_self_def Let_def store_defs SingleLoop_calls
      DualTraverse_calls run_calls_fresh fold_MapBoth)

lemma Search_tree_sound:
  assumes inv: "rs_inv K h rs U" and nv: "\<not> naive rs" and sm: "\<not> singleMode rs"
    and qt: "deref h qtp = Some qt"
    and qshape: "tree_shape (Root qt) (length (Dataset qt))"
  shows "\<exists>res. (\<forall>nbI dsI. Search_tree K h rs qtp rng nbI dsI = res)
    \<and> sound_ok (metric rs) (Dataset qt) U rng False res"
proof -
  obtain t where t: "deref h (referenceTree rs) = Some t"
    using nv inv by (auto simp: rs_inv_def split: option.splits)
  have shape: "tree_shape (Root t) (length U)"
    and m: "if treeOwner rs \<and> RearrangesDataset K
         then perm_record (oldFromNewReferences rs) (length U)
              \<and> referenceSet rs = map (\<lambda>i. U ! (oldFromNewReferences rs ! i)) [0..<length U]
         else referenceSet rs = U"
    using nv inv t by (simp_all add: rs_inv_def)
  define Q where "Q = Dataset qt"
  define R where "R = \<lparr>rReferenceSet = referenceSet rs, rQuerySet = Q, rRange = rng,
      rMetric = metric rs, rSameSet = False\<rparr>"
  define cs where "cs = dual_calls K R (Root qt) (Root t)"
  have rg: "j < length U" if "q < length Q" and "j \<in> set (hits R q cs)" for q j
    using that(2) tree_shape_wf [OF qshape] shape unfolding cs_def by (rule hits_dual_range)
  show ?thesis
  proof (cases "treeOwner rs \<and> RearrangesDataset K")
    case True
    then have r: "perm_record (oldFromNewReferences rs) (length U)"
      and P: "referenceSet rs = map (\<lambda>i. U ! (oldFromNewReferences rs ! i)) [0..<length U]"
      using m by simp_all
    have "Search_tree K h rs qtp rng nbI dsI =
        (None, map (\<lambda>i. map ((!) (oldFromNewReferences rs)) (resN R cs (length Q) ! i))
                 [0..<length Q], resD R cs (length Q))" for nbI dsI
      using True by (simp add: Search_tree_mapped [OF qt nv sm t] Let_def R_def cs_def Q_def)
    then show ?thesis
      unfolding Q_def [symmetric]
      by (rule ex_resultI) (rule sound_references [OF R_def r P rg])
  next
    case False
    then have PU: "referenceSet rs = U"
      using m by auto
    have "Search_tree K h rs qtp rng nbI dsI = (None, resN R cs (length Q), resD R cs (length Q))"
      for nbI dsI
      using False by (simp add: Search_tree_plain [OF qt nv sm t] Let_def R_def cs_def Q_def)
    then show ?thesis
      unfolding Q_def [symmetric]
      by (rule ex_resultI) (rule sound_plain [OF R_def [unfolded PU] rg])
  qed
qed

lemma Search_self_sound:
  assumes inv: "rs_inv K h rs U"
  shows "\<exists>res. (\<forall>nbI dsI. Search_self K h rs rng nbI dsI = res)
    \<and> sound_ok (metric rs) U U rng True res"
proof (cases "naive rs")
  case True
  then have own: "\<not> treeOwner rs" and PU: "referenceSet rs = U"
    using inv by (simp_all add: rs_inv_def)
  define R where "R = \<lparr>rReferenceSet = U, rQuerySet = U, rRange = rng,
      rMetric = metric rs, rSameSet = True\<rparr>"
  define cs where "cs = List.product [0..<length U] [0..<length U]"
  have eq: "Search_self K h rs rng nbI dsI = (None, resN R cs (length U), resD R cs (length U))"
    for nbI dsI
    by (simp add: Search_self_naive [OF True own] Let_def PU R_def cs_def)
  have rg: "j < length U" if "q < length U" and "j \<in> set (hits R q cs)" for q j
    using that(2) unfolding cs_def by (rule hits_product_range)
  have "sound_ok (metric rs) U U rng True (None, resN R cs (length U), resD R cs (length U))"
    by (rule sound_plain [OF R_def rg])
  then show ?thesis
    by (rule ex_resultI [OF eq])
next
  case nv: False
  obtain t where t: "deref h (referenceTree rs) = Some t"
    using nv inv by (auto simp: rs_inv_def split: option.splits)
  have shape: "tree_shape (Root t) (length U)"
    and m: "if treeOwner rs \<and> RearrangesDataset K
         then perm_record (oldFromNewReferences rs) (length U)
              \<and> referenceSet rs = map (\<lambda>i. U ! (oldFromNewReferences rs ! i)) [0..<length U]
         else referenceSet rs = U"
    using nv inv t by (simp_all add: rs_inv_def)
  have len: "length (referenceSet rs) = length U"
    using m by (auto split: if_splits)
  define R where "R = \<lparr>rReferenceSet = referenceSet rs, rQuerySet = referenceSet rs,
      rRange = rng, rMetric = metric rs, rSameSet = True\<rparr>"
  define cs where "cs = (if singleMode rs
      then concat (map (\<lambda>i. map (Pair i) (single_calls K R i (Root t))) [0..<length U])
      else dual_calls K R (Root t) (Root t))"
  have rg: "j < length U" if "q < length U" and "j \<in> set (hits R q cs)" for q j
  proof (cases "singleMode rs")
    case True
    then show ?thesis
      using that(2) shape hits_rows_range [of j R q K "Root t" "[0..<length U]" "length U"]
      by (simp add: cs_def)
  next
    case False
    then show ?thesis
      using that(2) shape hits_dual_range [of j R q K "Root t" "Root t" "length U"]
      by (simp add: cs_def tree_shape_wf)
  qed
  show ?thesis
  proof (cases "treeOwner rs \<and> RearrangesDataset K")
    case True
    then have r: "perm_record (oldFromNewReferences rs) (length U)"
      and P: "referenceSet rs = map (\<lambda>i. U ! (oldFromNewReferences rs ! i)) [0..<length U]"
      using m by simp_all
    have pn: "\<forall>i<length (referenceSet rs). oldFromNewReferences rs ! i < length (referenceSet rs)"
      using r by (simp add: len perm_record_nth)
    have "Search_self K h rs rng nbI dsI =
        (None,
         scatter (oldFromNewReferences rs)
           (\<lambda>i. map (\<lambda>j. oldFromNewReferences rs ! (resN R cs (length U) ! i ! j))
                   [0..<length (resD R cs (length U) ! i)]) (length U) (replicate (length U) []),
         scatter (oldFromNewReferences rs) (\<lambda>i. resD R cs (length U) ! i) (length U)
           (replicate (length U) []))" for nbI dsI
      using True by (simp add: Search_self_mapped [OF nv t _ _ pn] Let_def R_def cs_def len)
    then show ?thesis
      by (rule ex_resultI) (rule sound_both [OF R_def r r P P _ rg refl], simp)
  next
    case False
    then have PU: "referenceSet rs = U"
      using m by auto
    have "Search_self K h rs rng nbI dsI = (None, resN R cs (length U), resD R cs (length U))"
      for nbI dsI
      using False by (simp add: Search_self_plain [OF nv t] Let_def R_def cs_def PU)
    then show ?thesis
      by (rule ex_resultI) (rule sound_plain [OF R_def [unfolded PU] rg])
  qed
qed

lemma RangeSearch_tree_inv:
  assumes "RangeSearch_tree h p sm M = Inr rs" and "deref h p = Some t"
    and "tree_shape (Root t) (length (Dataset t))"
  shows "rs_inv K h rs (Dataset t)"
  using assms by (auto simp: RangeSearch_tree_def rs_inv_def)

lemma sound_ok_empty:
  assumes "sound_ok M Q U rng sf res" and "Hi rng < Lo rng"
  shows "res = (None, replicate (length Q) [], replicate (length Q) [])"
proof -
  obtain st nb ds where res: "res = (st, nb, ds)"
    by (cases res)
  have st: "st = None" and ln: "length nb = length Q" and ld: "length ds = length Q"
    and en: "\<And>q. q < length Q \<Longrightarrow>
        list_all (\<lambda>j. j < length U \<and> \<not> (sf \<and> q = j) \<and> Contains rng (M (Q ! q) (U ! j))) (nb ! q)
        \<and> ds ! q = map (\<lambda>j. M (Q ! q) (U ! j)) (nb ! q)"
    using assms(1) by (simp_all add: sound_ok_def res list_all_iff)
  have no: "\<not> Contains rng d" for d
    using assms(2) by (auto simp: Contains_def)
  have nq: "nb ! q = []" if "q < length Q" for q
    using en [OF that] no by (cases "nb ! q") simp_all
  have dq: "ds ! q = []" if "q < length Q" for q
    using en [OF that] nq [OF that] by simp
  have "nb = replicate (length Q) []"
    by (rule nth_equalityI) (simp_all add: ln nq)
  moreover have "ds = replicate (length Q) []"
    by (rule nth_equalityI) (simp_all add: ld dq)
  ultimately show ?thesis
    by (simp add: res st)
qed

section \<open>Empty ranges, self-search and the buffers\<close>

lemma sound_ok_buffers:
  assumes "sound_ok M Q U rng sf res"
  shows "buffers_ok M Q U res"
proof -
  obtain st nb ds where res: "res = (st, nb, ds)"
    by (cases res)
  have "length nb = length Q" and "length ds = length Q"
    and "\<And>q. q < length Q \<Longrightarrow> ds ! q = map (\<lambda>j. M (Q ! q) (U ! j)) (nb ! q)"
    using assms by (simp_all add: sound_ok_def res list_all_iff)
  then show ?thesis
    by (simp add: buffers_ok_def res list_all_iff)
qed

lemma sound_ok_not_self:
  assumes "sound_ok M Q U rng True res" and "q < length Q"
  shows "q \<notin> set (fst (snd res) ! q)"
proof -
  obtain st nb ds where res: "res = (st, nb, ds)"
    by (cases res)
  have "list_all (\<lambda>j. j < length U \<and> \<not> (True \<and> q = j) \<and> Contains rng (M (Q ! q) (U ! j)))
      (nb ! q)"
    using assms by (simp add: sound_ok_def res list_all_iff)
  then show ?thesis
    by (auto simp: res list_all_iff)
qed

lemma sound_ok_status:
  "sound_ok M Q U rng sf res \<Longrightarrow> fst res = None \<and> length (fst (snd res)) = length Q"
  by (cases res) (simp add: sound_ok_def)

text \<open>
  Objects that own their tree.  For an object built from a reference set, in any
  of the three modes, and a range whose lower end is above its upper end: Search
  with a query set returns without an error, and both buffers hold an empty
  sequence for every query point.  The bounds of the tree are not needed for
  this, only that the trees are built to contract.  An object that borrows its
  tree is not covered.
\<close>

theorem owned_tree_empty_range_gives_empty_results:
  assumes "RangeSearch_set K h refs nv sm M = (rs, hS)"
    and "nv \<or> built_ok K refs"
    and "nv \<or> sm \<or> built_ok K Q"
    and "Hi rng < Lo rng"
  shows "Search_set K hS rs Q rng nbI dsI
    = (None, replicate (length Q) [], replicate (length Q) [])"
proof -
  note c = RangeSearch_set_inv [OF assms(1,2)]
  have sh: "set_shape K rs Q"
    using assms(3) c(3,4) by (auto simp: set_shape_def)
  have own: "RearrangesDataset K \<and> \<not> naive rs \<and> \<not> singleMode rs \<longrightarrow> treeOwner rs"
    using c(3,5) by simp
  obtain res where eq: "\<And>a b. Search_set K hS rs Q rng a b = res"
    and so: "sound_ok (metric rs) Q refs rng False res"
    using Search_set_sound [OF c(1) sh own, of rng] by auto
  show ?thesis
    using sound_ok_empty [OF so assms(4)] by (simp add: eq)
qed

theorem owned_tree_empty_range_gives_empty_results_witness:
  "Search_set (lineKit True)
     (snd (RangeSearch_set (lineKit True) [] [0, 3, 4] False False lineMetric))
     (fst (RangeSearch_set (lineKit True) [] [0, 3, 4] False False lineMetric))
     [0, 10] \<lparr>Lo = 5, Hi = 1\<rparr> [[7]] [[1]]
   = (None, [[], []], [[], []])"
proof -
  have b: "False \<or> built_ok (lineKit True) [0, 3, 4]"
    by code_simp
  have q: "False \<or> False \<or> built_ok (lineKit True) [0, 10]"
    by code_simp
  have e: "Hi \<lparr>Lo = 5 :: int, Hi = 1\<rparr> < Lo \<lparr>Lo = 5 :: int, Hi = 1\<rparr>"
    by simp
  show ?thesis
    using owned_tree_empty_range_gives_empty_results [where nbI = "[[7]]" and dsI = "[[1]]",
        OF prod.collapse [symmetric] b q e]
    by (simp add: numeral_2_eq_2)
qed

text \<open>
  C8.  Search without a query set passes the self-exclusion flag to the rule
  (\<open>rSameSet\<close> is true in \<open>Traverse_self\<close>, line 346), and for every object in a
  state the constructors establish (\<open>rs_inv\<close>, by \<open>RangeSearch_set_inv\<close> and
  \<open>RangeSearch_tree_inv\<close>) the call returns with one entry for each reference
  point and no point among its own neighbours, whatever the range, so also when
  the distance of a point to itself is in the range.
\<close>

theorem self_search_excludes_query:
  assumes "rs_inv K h rs U" and "q < length U"
  shows "fst (Search_self K h rs rng nbI dsI) = None
    \<and> length (fst (snd (Search_self K h rs rng nbI dsI))) = length U
    \<and> q \<notin> set (fst (snd (Search_self K h rs rng nbI dsI)) ! q)"
proof -
  obtain res where eq: "\<And>a b. Search_self K h rs rng a b = res"
    and so: "sound_ok (metric rs) U U rng True res"
    using Search_self_sound [OF assms(1), of rng] by auto
  show ?thesis
    using sound_ok_status [OF so] sound_ok_not_self [OF so assms(2)] by (simp add: eq)
qed

theorem self_search_excludes_query_witness:
  "Contains \<lparr>Lo = 0, Hi = 3\<rparr> (lineMetric 3 3)
   \<and> 1 \<notin> set (fst (snd (Search_self (lineKit True)
       (snd (RangeSearch_set (lineKit True) [] [0, 3, 4] False False lineMetric))
       (fst (RangeSearch_set (lineKit True) [] [0, 3, 4] False False lineMetric))
       \<lparr>Lo = 0, Hi = 3\<rparr> [] [])) ! 1)"
proof -
  have i: "rs_inv (lineKit True)
       (snd (RangeSearch_set (lineKit True) [] [0, 3, 4] False False lineMetric))
       (fst (RangeSearch_set (lineKit True) [] [0, 3, 4] False False lineMetric)) [0, 3, 4]"
    by code_simp
  have q: "(1::nat) < length [0, 3, 4 :: int]"
    by simp
  show ?thesis
    using self_search_excludes_query [OF i q, of "\<lparr>Lo = 0, Hi = 3\<rparr>" "[]" "[]"]
    by (simp add: Contains_def lineMetric_def)
qed

text \<open>
  C10.  For an object in a state the constructors establish.  Search with a query
  set that returns without an error leaves one entry for each query point in both
  buffers, with equal lengths and corresponding positions for every query, and
  the result is the same whatever the buffers held before.  The same holds for
  Search with a query tree (one entry for each point of the tree's dataset) and
  for Search without a query set (one entry for each reference point), which
  always returns.
\<close>

theorem buffers_after_search:
  assumes inv: "rs_inv K h rs U"
  shows "(set_shape K rs Q \<and> fst (Search_set K h rs Q rng nbI dsI) = None \<longrightarrow>
            buffers_ok (metric rs) Q U (Search_set K h rs Q rng nbI dsI)
            \<and> Search_set K h rs Q rng nbI dsI = Search_set K h rs Q rng nbJ dsJ)
    \<and> (deref h qtp = Some qt \<and> tree_shape (Root qt) (length (Dataset qt))
         \<and> fst (Search_tree K h rs qtp rng nbI dsI) = None \<longrightarrow>
            buffers_ok (metric rs) (Dataset qt) U (Search_tree K h rs qtp rng nbI dsI)
            \<and> Search_tree K h rs qtp rng nbI dsI = Search_tree K h rs qtp rng nbJ dsJ)
    \<and> fst (Search_self K h rs rng nbI dsI) = None
    \<and> buffers_ok (metric rs) U U (Search_self K h rs rng nbI dsI)
    \<and> Search_self K h rs rng nbI dsI = Search_self K h rs rng nbJ dsJ"
proof -
  have A: "buffers_ok (metric rs) Q U (Search_set K h rs Q rng nbI dsI)
      \<and> Search_set K h rs Q rng nbI dsI = Search_set K h rs Q rng nbJ dsJ"
    if sh: "set_shape K rs Q" and ok: "fst (Search_set K h rs Q rng nbI dsI) = None"
  proof -
    have own: "RearrangesDataset K \<and> \<not> naive rs \<and> \<not> singleMode rs \<longrightarrow> treeOwner rs"
    proof (intro impI, elim conjE, rule ccontr)
      assume r: "RearrangesDataset K" and nv: "\<not> naive rs" and sm: "\<not> singleMode rs"
        and o: "\<not> treeOwner rs"
      obtain t where t: "deref h (referenceTree rs) = Some t"
        using nv inv by (auto simp: rs_inv_def split: option.splits)
      show False
        using Search_set_dual_borrowed [OF nv sm t r o, of Q rng nbI dsI] ok by simp
    qed
    obtain res where eq: "\<And>a b. Search_set K h rs Q rng a b = res"
      and so: "sound_ok (metric rs) Q U rng False res"
      using Search_set_sound [OF inv sh own, of rng] by auto
    show ?thesis
      using sound_ok_buffers [OF so] by (simp add: eq)
  qed
  have B: "buffers_ok (metric rs) (Dataset qt) U (Search_tree K h rs qtp rng nbI dsI)
      \<and> Search_tree K h rs qtp rng nbI dsI = Search_tree K h rs qtp rng nbJ dsJ"
    if qt: "deref h qtp = Some qt" and sh: "tree_shape (Root qt) (length (Dataset qt))"
      and ok: "fst (Search_tree K h rs qtp rng nbI dsI) = None"
  proof -
    have nv: "\<not> naive rs" and sm: "\<not> singleMode rs"
      using ok qt by (auto simp: Search_tree_def split: if_splits)
    obtain res where eq: "\<And>a b. Search_tree K h rs qtp rng a b = res"
      and so: "sound_ok (metric rs) (Dataset qt) U rng False res"
      using Search_tree_sound [OF inv nv sm qt sh, of rng] by auto
    show ?thesis
      using sound_ok_buffers [OF so] by (simp add: eq)
  qed
  obtain res where eq: "\<And>a b. Search_self K h rs rng a b = res"
    and so: "sound_ok (metric rs) U U rng True res"
    using Search_self_sound [OF inv, of rng] by auto
  have C: "fst (Search_self K h rs rng nbI dsI) = None
      \<and> buffers_ok (metric rs) U U (Search_self K h rs rng nbI dsI)
      \<and> Search_self K h rs rng nbI dsI = Search_self K h rs rng nbJ dsJ"
    using sound_ok_buffers [OF so] sound_ok_status [OF so] by (simp add: eq)
  show ?thesis
    using A B C by blast
qed

theorem buffers_after_search_witness:
  "buffers_ok lineMetric [10, 0, 2] [0, 3, 4]
     (Search_set (lineKit True)
        (snd (RangeSearch_set (lineKit True) [] [0, 3, 4] False False lineMetric))
        (fst (RangeSearch_set (lineKit True) [] [0, 3, 4] False False lineMetric))
        [10, 0, 2] \<lparr>Lo = 1, Hi = 3\<rparr> [[9], [8, 7]] [[1]])
   \<and> Search_set (lineKit True)
        (snd (RangeSearch_set (lineKit True) [] [0, 3, 4] False False lineMetric))
        (fst (RangeSearch_set (lineKit True) [] [0, 3, 4] False False lineMetric))
        [10, 0, 2] \<lparr>Lo = 1, Hi = 3\<rparr> [[9], [8, 7]] [[1]]
     = Search_set (lineKit True)
        (snd (RangeSearch_set (lineKit True) [] [0, 3, 4] False False lineMetric))
        (fst (RangeSearch_set (lineKit True) [] [0, 3, 4] False False lineMetric))
        [10, 0, 2] \<lparr>Lo = 1, Hi = 3\<rparr> [] []"
proof -
  have i: "rs_inv (lineKit True)
       (snd (RangeSearch_set (lineKit True) [] [0, 3, 4] False False lineMetric))
       (fst (RangeSearch_set (lineKit True) [] [0, 3, 4] False False lineMetric)) [0, 3, 4]"
    by code_simp
  have s: "set_shape (lineKit True)
       (fst (RangeSearch_set (lineKit True) [] [0, 3, 4] False False lineMetric)) [10, 0, 2]"
    by code_simp
  have ok: "fst (Search_set (lineKit True)
        (snd (RangeSearch_set (lineKit True) [] [0, 3, 4] False False lineMetric))
        (fst (RangeSearch_set (lineKit True) [] [0, 3, 4] False False lineMetric))
        [10, 0, 2] \<lparr>Lo = 1, Hi = 3\<rparr> [[9], [8, 7]] [[1]]) = None"
    by code_simp
  have m: "metric (fst (RangeSearch_set (lineKit True) [] [0, 3, 4] False False lineMetric))
      = lineMetric"
    by (simp add: RangeSearch_set_def split: prod.splits)
  note w = conjunct1 [OF buffers_after_search [OF i, where Q = "[10, 0, 2]"
          and rng = "\<lparr>Lo = 1, Hi = 3\<rparr>" and nbI = "[[9], [8, 7]]" and dsI = "[[1]]"
          and nbJ = "[]" and dsJ = "[]"]]
  show ?thesis
    using mp [OF w conjI [OF s ok]] unfolding m .
qed

section \<open>The other two overloads return the in-range pairs\<close>



section \<open>Which reference points are reported\<close>





section \<open>The dual-tree search on a borrowed tree against the other strategies\<close>

text \<open>
  C1.  Where the code departs from the claim: on the tree over the points 4, 3, 0
  that a caller built with the rearranging tree type, with the queries 0 and 10
  and the range from 0 to 5.  The naive object over the same points and the
  single-tree object on the borrowed tree report the reference points 0, 1, 2 for
  query 0; the dual-tree object on the borrowed tree ends in \<open>InvalidDelete\<close>
  with no neighbours at all, although the object is in a state the constructor
  establishes and the tree type keeps its contract.
\<close>

theorem borrowed_dual_search_disagrees_with_naive:
  "RangeSearch_tree borrowedHeap (Some 0) False lineMetric = Inr borrower
   \<and> rs_inv (lineKit True) borrowedHeap borrower [4, 3, 0]
   \<and> set_contract (lineKit True) borrowedHeap borrower [0, 10]
   \<and> Search_set (lineKit True) []
        (fst (RangeSearch_set (lineKit True) [] [4, 3, 0] True False lineMetric))
        [0, 10] \<lparr>Lo = 0, Hi = 5\<rparr> [] []
      = (None, [[0, 1, 2], []], [[4, 3, 0], []])
   \<and> Search_set (lineKit True) borrowedHeap (borrower\<lparr>singleMode := True\<rparr>)
        [0, 10] \<lparr>Lo = 0, Hi = 5\<rparr> [] []
      = (None, [[0, 1, 2], []], [[4, 3, 0], []])
   \<and> Search_set (lineKit True) borrowedHeap borrower [0, 10] \<lparr>Lo = 0, Hi = 5\<rparr> [] []
      = (Some InvalidDelete, [[], []], [[4, 3, 0], []])"
proof -
  have c: "RangeSearch_tree borrowedHeap (Some 0) False lineMetric = Inr borrower"
    by (simp add: RangeSearch_tree_def borrowedHeap_def borrower_def deref_def lineTree_def)
  have r: "rs_inv (lineKit True) borrowedHeap borrower [4, 3, 0]
      \<and> set_contract (lineKit True) borrowedHeap borrower [0, 10]"
    by code_simp
  have n: "Search_set (lineKit True) []
        (fst (RangeSearch_set (lineKit True) [] [4, 3, 0] True False lineMetric))
        [0, 10] \<lparr>Lo = 0, Hi = 5\<rparr> [] []
      = (None, [[0, 1, 2], []], [[4, 3, 0], []])"
    by code_simp
  have s: "Search_set (lineKit True) borrowedHeap (borrower\<lparr>singleMode := True\<rparr>)
        [0, 10] \<lparr>Lo = 0, Hi = 5\<rparr> [] []
      = (None, [[0, 1, 2], []], [[4, 3, 0], []])"
    by code_simp
  have d: "Search_set (lineKit True) borrowedHeap borrower [0, 10] \<lparr>Lo = 0, Hi = 5\<rparr> [] []
      = (Some InvalidDelete, [[], []], [[4, 3, 0], []])"
    by code_simp
  show ?thesis
    using c r n s d by simp
qed

text \<open>
  C7.  Where the code departs from the claim: the same borrowed tree, dual-tree
  mode, and the empty range from 5 down to 1.  The naive object and the
  single-tree object return with empty results; the dual-tree object on the
  borrowed tree has empty results too, but ends in \<open>InvalidDelete\<close>, the delete of
  the caller's buffer at line 228, and does not complete.
\<close>

theorem borrowed_dual_search_fails_on_empty_range:
  "RangeSearch_tree borrowedHeap (Some 0) False lineMetric = Inr borrower
   \<and> Hi \<lparr>Lo = 5 :: int, Hi = 1\<rparr> < Lo \<lparr>Lo = 5 :: int, Hi = 1\<rparr>
   \<and> Search_set (lineKit True) []
        (fst (RangeSearch_set (lineKit True) [] [4, 3, 0] True False lineMetric))
        [0, 10] \<lparr>Lo = 5, Hi = 1\<rparr> [] []
      = (None, [[], []], [[], []])
   \<and> Search_set (lineKit True) borrowedHeap (borrower\<lparr>singleMode := True\<rparr>)
        [0, 10] \<lparr>Lo = 5, Hi = 1\<rparr> [] []
      = (None, [[], []], [[], []])
   \<and> Search_set (lineKit True) borrowedHeap borrower [0, 10] \<lparr>Lo = 5, Hi = 1\<rparr> [] []
      = (Some InvalidDelete, [[], []], [[], []])"
proof -
  have c: "RangeSearch_tree borrowedHeap (Some 0) False lineMetric = Inr borrower"
    by (simp add: RangeSearch_tree_def borrowedHeap_def borrower_def deref_def lineTree_def)
  have n: "Search_set (lineKit True) []
        (fst (RangeSearch_set (lineKit True) [] [4, 3, 0] True False lineMetric))
        [0, 10] \<lparr>Lo = 5, Hi = 1\<rparr> [] []
      = (None, [[], []], [[], []])"
    by code_simp
  have s: "Search_set (lineKit True) borrowedHeap (borrower\<lparr>singleMode := True\<rparr>)
        [0, 10] \<lparr>Lo = 5, Hi = 1\<rparr> [] []
      = (None, [[], []], [[], []])"
    by code_simp
  have d: "Search_set (lineKit True) borrowedHeap borrower [0, 10] \<lparr>Lo = 5, Hi = 1\<rparr> [] []
      = (Some InvalidDelete, [[], []], [[], []])"
    by code_simp
  show ?thesis
    using c n s d by simp
qed

end
